theory Spec2Isabelle
  imports Main "HOL-Library.Multiset"
begin

section \<open>Data model\<close>

text \<open>
  Exceptions the crawler meets. \<open>KeyError k\<close> is Python's error for a subscript on a
  missing key (\<open>tag['content']\<close> in \<open>extract_content\<close>); \<open>RequestError\<close> stands for
  whatever \<open>requests.get\<close> or \<open>RobotFileParser.read\<close> raise (connection errors,
  timeouts, decoding errors): the code catches them all as \<open>Exception\<close> and only logs
  the message.
\<close>

datatype error = KeyError string | RequestError string

text \<open>
  A document is represented by the tree that \<open>BeautifulSoup(html, 'html.parser')\<close> builds
  from it (line 78 of crawler.py): text nodes and tags with their attribute dictionary
  and children. The parser is lenient and builds some tree for every input string, so
  a statement about every tree covers every input text.
\<close>

datatype node = Text string | Tag string "(string \<times> string) list" "node list"

type_synonym html = "node list"

text \<open>The six components of \<open>urllib.parse.urlparse\<close>'s result.\<close>

record parsed_url =
  scheme :: string
  netloc :: string
  path :: string
  params :: string
  query :: string
  fragment :: string

record resources_d =
  images :: "string list"
  scripts :: "string list"
  stylesheets :: "string list"

text \<open>\<open>title\<close> is \<open>soup.title.string\<close>, which is \<open>None\<close> for a title tag that does not
  hold exactly one string; \<open>keywords_m\<close> is the entry \<open>'keywords'\<close>.\<close>

record metadata_d =
  title :: "string option"
  description :: string
  keywords_m :: string

record page_data =
  content :: string
  links :: "string list"
  resources :: resources_d
  metadata :: metadata_d

text \<open>
  A parsed robots.txt (\<open>RobotFileParser\<close> after \<open>read()\<close>) is represented by the
  function it answers with: \<open>rp.can_fetch(useragent, url)\<close>.
\<close>

type_synonym robots = "string \<Rightarrow> string \<Rightarrow> bool"

record response =
  status_code :: int
  resp_text :: html

text \<open>
  The trace of one session, in program order: a pop of the queue (line 182), a URL
  entering \<open>visited_urls\<close> (line 129), \<open>rp.read()\<close> for an origin (line 68) and
  \<open>requests.get\<close> (line 143).
\<close>

datatype event = Dequeued string int | Visited string | RobotsRead string | Get string

text \<open>
  What the crawler calls outside the repository. \<open>urlparse\<close> and \<open>urljoin\<close> are the
  functions of \<open>urllib.parse\<close>, taken as total functions of their arguments (the
  library's \<open>ValueError\<close> for a malformed bracketed host is outside the model). The
  two network calls see the trace so far, so a
  site may answer differently each time: \<open>robots_read h u\<close> is \<open>rp.read()\<close> on the
  robots URL \<open>u\<close> (\<open>Inl\<close> when it raises; else the answers of \<open>rp.can_fetch\<close>, also
  when \<open>read\<close> itself caught an HTTP error status), \<open>http_get h u\<close> is \<open>requests.get(u, ...)\<close>
  (\<open>Inl\<close> when it raises).
\<close>

record env =
  urlparse :: "string \<Rightarrow> parsed_url"
  urljoin :: "string \<Rightarrow> string \<Rightarrow> string"
  robots_read :: "event list \<Rightarrow> string \<Rightarrow> error + robots"
  http_get :: "event list \<Rightarrow> string \<Rightarrow> error + response"

text \<open>The fields of \<open>ClearnetCrawler\<close>.\<close>

record crawler =
  respect_robots :: bool
  crawl_depth :: int
  link_limit :: int
  mode :: string
  user_agent :: string
  delay_min :: int
  delay_max :: int
  robots_cache :: "string \<rightharpoonup> robots"
  visited_urls :: "string set"

section \<open>Construction\<close>

definition init_crawler :: "bool \<Rightarrow> int \<Rightarrow> int \<Rightarrow> string \<Rightarrow> crawler" where
  "init_crawler rr depth limit m =
     (let c = \<lparr> respect_robots = rr, crawl_depth = depth, link_limit = limit, mode = m,
                user_agent = ''ClearnetResearchAssistant/1.0 (+https://example.com/bot; research-purpose)'',
                delay_min = 2, delay_max = 4,
                robots_cache = Map.empty, visited_urls = {} \<rparr>
      in if m = ''exploratory'' then
           c\<lparr> link_limit := min (limit * 2) 20, delay_min := 1, delay_max := 3 \<rparr>
         else if m = ''deep_dive'' then
           c\<lparr> crawl_depth := min (depth + 2) 10, delay_min := 2, delay_max := 4 \<rparr>
         else if m = ''stealth'' then
           c\<lparr> delay_min := 3, delay_max := 7 \<rparr>
         else
           c\<lparr> delay_min := 2, delay_max := 4 \<rparr>)"

section \<open>The parts of the parse tree that \<open>extract_content\<close> reads\<close>

text \<open>Characters for which Python's \<open>str.isspace\<close> holds, among the first 256 code points.\<close>

definition py_isspace :: "char \<Rightarrow> bool" where
  "py_isspace ch = (let n = (of_char ch :: nat) in
     (9 \<le> n \<and> n \<le> 13) \<or> (28 \<le> n \<and> n \<le> 32) \<or> n = 133 \<or> n = 160)"

definition py_strip :: "string \<Rightarrow> string" where
  "py_strip s = rev (dropWhile py_isspace (rev (dropWhile py_isspace s)))"

text \<open>\<open>sep.join(xs)\<close>.\<close>

fun py_join :: "string \<Rightarrow> string list \<Rightarrow> string" where
  "py_join sep [] = []"
| "py_join sep [x] = x"
| "py_join sep (x # y # ys) = x @ sep @ py_join sep (y # ys)"

text \<open>The whitespace-separated tokens of an attribute value (how the tree stores \<open>rel\<close>).\<close>

fun py_words_aux :: "string \<Rightarrow> string \<Rightarrow> string list" where
  "py_words_aux cur [] = (if cur = [] then [] else [cur])"
| "py_words_aux cur (ch # s) =
     (if py_isspace ch then (if cur = [] then [] else [cur]) @ py_words_aux [] s
      else py_words_aux (cur @ [ch]) s)"

definition py_words :: "string \<Rightarrow> string list" where
  "py_words s = py_words_aux [] s"

text \<open>\<open>xs[:n]\<close>: a negative bound counts from the end.\<close>

definition py_slice_to :: "int \<Rightarrow> 'a list \<Rightarrow> 'a list" where
  "py_slice_to n xs = (if 0 \<le> n then take (nat n) xs else take (nat (int (length xs) + n)) xs)"

text \<open>All tags below a node, the node first, in document order.\<close>

fun tags_of :: "node \<Rightarrow> node list" where
  "tags_of (Text s) = []"
| "tags_of (Tag n a cs) = Tag n a cs # concat (map tags_of cs)"

definition all_tags :: "html \<Rightarrow> node list" where
  "all_tags soup = concat (map tags_of soup)"

fun tag_name :: "node \<Rightarrow> string" where
  "tag_name (Tag n a cs) = n"
| "tag_name (Text s) = []"

text \<open>\<open>tag.attrs.get(k)\<close>.\<close>

fun attr :: "node \<Rightarrow> string \<Rightarrow> string option" where
  "attr (Tag n a cs) k = map_of a k"
| "attr (Text s) k = None"

text \<open>\<open>tag[k]\<close> raises \<open>KeyError\<close> when the tag has no attribute \<open>k\<close>.\<close>

definition get_item :: "node \<Rightarrow> string \<Rightarrow> error + string" where
  "get_item t k = (case attr t k of None \<Rightarrow> Inl (KeyError k) | Some v \<Rightarrow> Inr v)"

text \<open>\<open>soup.find_all(names)\<close> for a list of tag names.\<close>

definition find_all :: "string list \<Rightarrow> html \<Rightarrow> node list" where
  "find_all names soup = filter (\<lambda>t. tag_name t \<in> set names) (all_tags soup)"

text \<open>\<open>[t[k] for t in soup.find_all(name, k=True)]\<close>: the values of attribute \<open>k\<close> on the
  tags called \<open>name\<close> that carry it.\<close>

definition attr_values :: "string \<Rightarrow> string \<Rightarrow> html \<Rightarrow> string list" where
  "attr_values name k soup = List.map_filter (\<lambda>t. attr t k) (find_all [name] soup)"

text \<open>\<open>soup.find(name)\<close> and \<open>soup.find(name, attrs={k: v})\<close>: the first match or \<open>None\<close>.\<close>

definition find_first :: "string \<Rightarrow> html \<Rightarrow> node option" where
  "find_first name soup = (case find_all [name] soup of [] \<Rightarrow> None | t # ts \<Rightarrow> Some t)"

definition find_with_attr :: "string \<Rightarrow> string \<Rightarrow> string \<Rightarrow> html \<Rightarrow> node option" where
  "find_with_attr name k v soup =
     (case filter (\<lambda>t. attr t k = Some v) (find_all [name] soup) of
        [] \<Rightarrow> None | t # ts \<Rightarrow> Some t)"

text \<open>The strings below a node in document order, and \<open>tag.get_text(strip=True)\<close>.\<close>

fun strings_of :: "node \<Rightarrow> string list" where
  "strings_of (Text s) = [s]"
| "strings_of (Tag n a cs) = concat (map strings_of cs)"

definition get_text_strip :: "node \<Rightarrow> string" where
  "get_text_strip t = concat (filter (\<lambda>s. s \<noteq> []) (map py_strip (strings_of t)))"

text \<open>\<open>tag.string\<close>: the single string of a tag with exactly one child, else \<open>None\<close>.\<close>

fun tag_string :: "node \<Rightarrow> string option" where
  "tag_string (Text s) = Some s"
| "tag_string (Tag n a [ch]) = tag_string ch"
| "tag_string (Tag n a cs) = None"

section \<open>\<open>ClearnetCrawler.extract_content\<close>\<close>

text \<open>The test of lines 91 to 93 on a resolved link.\<close>

definition link_ok :: "env \<Rightarrow> string \<Rightarrow> string \<Rightarrow> bool" where
  "link_ok env base_domain link =
     (let parsed_link = urlparse env link in
        (netloc parsed_link = base_domain \<or> netloc parsed_link = []) \<and>
        scheme parsed_link \<in> set [''http'', ''https''] \<and>
        CHR ''#'' \<notin> set (path parsed_link))"

text \<open>Lines 85 to 94: the qualifying links of a page, in document order.\<close>

definition internal_links :: "env \<Rightarrow> string \<Rightarrow> html \<Rightarrow> string list" where
  "internal_links env url soup =
     (let base_domain = netloc (urlparse env url) in
        filter (link_ok env base_domain)
          (map (urljoin env url) (attr_values ''a'' ''href'' soup)))"

text \<open>Lines 112 and 113: \<open>soup.find('meta', attrs={'name': k})['content'] if soup.find(...) else ""\<close>.\<close>

definition meta_content :: "html \<Rightarrow> string \<Rightarrow> error + string" where
  "meta_content soup k =
     (case find_with_attr ''meta'' ''name'' k soup of
        None \<Rightarrow> Inr []
      | Some t \<Rightarrow> get_item t ''content'')"

definition extract_content :: "env \<Rightarrow> crawler \<Rightarrow> string \<Rightarrow> html \<Rightarrow> error + page_data" where
  "extract_content env c url soup =
     (let text_elements = find_all [''p'', ''h1'', ''h2'', ''h3'', ''h4'', ''h5'', ''h6'',
                                     ''li'', ''span'', ''div''] soup;
          text_content = py_join '' ''
             (filter (\<lambda>s. s \<noteq> []) (map get_text_strip text_elements));
          found = internal_links env url soup;
          found = py_slice_to (link_limit c) found;
          res = \<lparr> images = map (urljoin env url) (attr_values ''img'' ''src'' soup),
                  scripts = map (urljoin env url) (attr_values ''script'' ''src'' soup),
                  stylesheets = map (urljoin env url)
                    (List.map_filter (\<lambda>t. attr t ''href'')
                       (filter (\<lambda>t. case attr t ''rel'' of None \<Rightarrow> False
                                      | Some v \<Rightarrow> v = ''stylesheet'' \<or> ''stylesheet'' \<in> set (py_words v))
                          (find_all [''link''] soup))) \<rparr>;
          ttl = (case find_first ''title'' soup of
                   Some t \<Rightarrow> tag_string t
                 | None \<Rightarrow> Some ''No title'')
      in case meta_content soup ''description'' of
           Inl e \<Rightarrow> Inl e
         | Inr d \<Rightarrow>
            (case meta_content soup ''keywords'' of
               Inl e \<Rightarrow> Inl e
             | Inr k \<Rightarrow>
                Inr \<lparr> content = text_content, links = found, resources = res,
                      metadata = \<lparr> title = ttl, description = d, keywords_m = k \<rparr> \<rparr>))"

section \<open>\<open>ClearnetCrawler.is_allowed\<close>\<close>

text \<open>
  Returns the answer, the crawler (its \<open>robots_cache\<close> may have grown) and the trace.
  The cache is written on line 69, after \<open>rp.read()\<close> has returned; when \<open>read\<close>
  raises, line 72 returns \<open>True\<close> and the cache is left as it was.
\<close>

text \<open>Line 58: \<open>f"{parsed_url.scheme}://{parsed_url.netloc}"\<close>, the key of the cache.\<close>

definition origin_of :: "env \<Rightarrow> string \<Rightarrow> string" where
  "origin_of env url = (let parsed = urlparse env url in scheme parsed @ ''://'' @ netloc parsed)"

definition is_allowed :: "env \<Rightarrow> crawler \<Rightarrow> string \<Rightarrow> event list \<Rightarrow> bool \<times> crawler \<times> event list" where
  "is_allowed env c url log =
     (if \<not> respect_robots c then (True, c, log)
      else
        let base_url = origin_of env url
        in case robots_cache c base_url of
             Some rp \<Rightarrow> (rp (user_agent c) url, c, log)
           | None \<Rightarrow>
              (case robots_read env log (urljoin env base_url ''/robots.txt'') of
                 Inr rp \<Rightarrow>
                   (rp (user_agent c) url,
                    c\<lparr> robots_cache := (robots_cache c)(base_url \<mapsto> rp) \<rparr>,
                    log @ [RobotsRead base_url])
               | Inl e \<Rightarrow> (True, c, log @ [RobotsRead base_url])))"

section \<open>\<open>ClearnetCrawler.crawl_url\<close>\<close>

text \<open>
  The politeness delay of lines 137 and 138 (\<open>time.sleep\<close> of a random duration between
  \<open>delay_min\<close> and \<open>delay_max\<close>) changes no value and is left out. The \<open>try\<close> block
  of lines 140 to 158 turns every exception of the request and of the extraction
  into the empty dictionary.
\<close>

definition crawl_url ::
  "env \<Rightarrow> crawler \<Rightarrow> string \<Rightarrow> int \<Rightarrow> event list
     \<Rightarrow> (string \<rightharpoonup> page_data) \<times> crawler \<times> event list" where
  "crawl_url env c url depth log =
     (if depth > crawl_depth c \<or> url \<in> visited_urls c then (Map.empty, c, log)
      else
        let c1 = c\<lparr> visited_urls := insert url (visited_urls c) \<rparr>;
            (allowed, c2, log2) = is_allowed env c1 url (log @ [Visited url])
        in if \<not> allowed then (Map.empty, c2, log2)
           else
             (case http_get env log2 url of
                Inl e \<Rightarrow> (Map.empty, c2, log2 @ [Get url])
              | Inr rsp \<Rightarrow>
                  if status_code rsp \<noteq> 200 then (Map.empty, c2, log2 @ [Get url])
                  else
                    (case extract_content env c2 url (resp_text rsp) of
                       Inl e \<Rightarrow> (Map.empty, c2, log2 @ [Get url])
                     | Inr data \<Rightarrow> ([url \<mapsto> data], c2, log2 @ [Get url]))))"

section \<open>\<open>ClearnetCrawler.crawl\<close>\<close>

text \<open>
  The state of the \<open>while\<close> loop of lines 181 to 196: the crawler, \<open>results\<close>, \<open>queue\<close>
  and the trace. \<open>loop_body env url depth s\<close> is one iteration after the pop of
  \<open>(url, depth)\<close>, with \<open>s\<close> holding the rest of the queue.
\<close>

type_synonym crawl_state =
  "crawler \<times> (string \<rightharpoonup> page_data) \<times> (string \<times> int) list \<times> event list"

definition loop_body :: "env \<Rightarrow> string \<Rightarrow> int \<Rightarrow> crawl_state \<Rightarrow> crawl_state" where
  "loop_body env url depth s =
     (case s of (c, results, queue, log) \<Rightarrow>
        if url \<in> visited_urls c \<or> depth > crawl_depth c then (c, results, queue, log)
        else
          (case crawl_url env c url depth log of (data, c', log') \<Rightarrow>
             (c', results ++ data,
              (case data url of
                 Some d \<Rightarrow>
                   queue @ map (\<lambda>link. (link, depth + 1))
                             (filter (\<lambda>link. link \<notin> visited_urls c') (links d))
               | None \<Rightarrow> queue),
              log')))"

text \<open>
  The loop ends: an item at depth \<open>d\<close> weighs \<open>crawl_depth + 1 - d\<close> (zero beyond the
  bound), and an iteration replaces one item by finitely many lighter ones, which
  decreases the multiset of weights in the multiset order.
\<close>

definition weight :: "int \<Rightarrow> string \<times> int \<Rightarrow> nat" where
  "weight D item = nat (D + 1 - snd item)"

definition frontier_weight :: "crawl_state \<Rightarrow> nat multiset" where
  "frontier_weight s = (case s of (c, results, queue, log) \<Rightarrow> mset (map (weight (crawl_depth c)) queue))"

lemma is_allowed_config:
  "is_allowed env c url log = (b, c', log') \<Longrightarrow>
     crawl_depth c' = crawl_depth c \<and> link_limit c' = link_limit c \<and>
     visited_urls c' = visited_urls c \<and> respect_robots c' = respect_robots c \<and> user_agent c' = user_agent c"
  by (auto simp: is_allowed_def Let_def split: if_splits option.splits sum.splits)

lemma crawl_url_config:
  "crawl_url env c url depth log = (data, c', log') \<Longrightarrow>
     crawl_depth c' = crawl_depth c \<and> link_limit c' = link_limit c \<and> respect_robots c' = respect_robots c \<and> user_agent c' = user_agent c"
  by (auto simp: crawl_url_def Let_def split: if_splits option.splits sum.splits prod.splits dest!: is_allowed_config)

lemma loop_body_decreases:
  "(frontier_weight (loop_body env url depth (c, results, queue, log' @ [Dequeued url depth])),
    frontier_weight (c, results, (url, depth) # queue, log)) \<in> mult less_than"
proof (cases "url \<in> visited_urls c \<or> depth > crawl_depth c")
  case True
  have "(mset (map (weight (crawl_depth c)) queue) + {#},
         add_mset (weight (crawl_depth c) (url, depth)) (mset (map (weight (crawl_depth c)) queue)))
        \<in> mult1 less_than"
    by (rule mult1I[OF refl refl]) simp
  with True show ?thesis
    by (simp add: loop_body_def frontier_weight_def mult_def)
next
  case False
  obtain data c' lg where cu: "crawl_url env c url depth (log' @ [Dequeued url depth]) = (data, c', lg)"
    by (metis prod_cases3)
  from crawl_url_config[OF cu] have D: "crawl_depth c' = crawl_depth c" by simp
  define new where "new = (case data url of
                 Some d \<Rightarrow> map (\<lambda>link. (link, depth + 1))
                             (filter (\<lambda>link. link \<notin> visited_urls c') (links d))
               | None \<Rightarrow> [])"
  have new: "\<And>b. b \<in># mset (map (weight (crawl_depth c)) new) \<Longrightarrow> (b, weight (crawl_depth c) (url, depth)) \<in> less_than"
    using False by (auto simp: new_def weight_def split: option.splits)
  have "(mset (map (weight (crawl_depth c)) queue) + mset (map (weight (crawl_depth c)) new),
         add_mset (weight (crawl_depth c) (url, depth)) (mset (map (weight (crawl_depth c)) queue)))
        \<in> mult1 less_than"
    by (rule mult1I[OF refl refl]) (rule new)
  moreover have "frontier_weight (loop_body env url depth (c, results, queue, log' @ [Dequeued url depth]))
      = mset (map (weight (crawl_depth c)) queue) + mset (map (weight (crawl_depth c)) new)"
    using False cu D by (simp add: loop_body_def frontier_weight_def new_def split: option.splits)
  ultimately show ?thesis
    by (simp add: frontier_weight_def mult_def)
qed

function crawl_loop :: "env \<Rightarrow> crawl_state \<Rightarrow> (string \<rightharpoonup> page_data) \<times> crawler \<times> event list" where
  "crawl_loop env (c, results, [], log) = (results, c, log)"
| "crawl_loop env (c, results, (url, depth) # queue, log) =
     crawl_loop env (loop_body env url depth (c, results, queue, log @ [Dequeued url depth]))"
  by pat_completeness auto
termination
proof (relation "inv_image (mult less_than) (\<lambda>(env, s). frontier_weight s)")
  show "wf (inv_image (mult less_than) (\<lambda>(env, s). frontier_weight s))"
    by (intro wf_inv_image wf_mult wf_less_than)
next
  fix env c results url depth queue log
  show "((env, loop_body env url depth (c, results, queue, log @ [Dequeued url depth])),
         env, c, results, (url, depth) # queue, log)
        \<in> inv_image (mult less_than) (\<lambda>(env, s). frontier_weight s)"
    using loop_body_decreases[of env url depth c results queue log log] by simp
qed

definition crawl :: "env \<Rightarrow> crawler \<Rightarrow> string \<Rightarrow> (string \<rightharpoonup> page_data) \<times> crawler \<times> event list" where
  "crawl env c seed_url =
     crawl_loop env (c\<lparr> visited_urls := {} \<rparr>, Map.empty, [(seed_url, 0)], [])"



section \<open>\<open>urllib.parse\<close>\<close>

text \<open>
  A model of \<open>urlsplit\<close>, \<open>urlparse\<close>, \<open>urlunsplit\<close>, \<open>urlunparse\<close> and \<open>urljoin\<close> of the
  Python standard library (CPython 3.11, \<open>Lib/urllib/parse.py\<close>), the functions
  crawler.py imports on line 6, on URLs of one-byte characters. The library also
  rejects an authority with malformed square brackets or with characters that
  normalise to a delimiter (\<open>ValueError\<close>); the model has no such check and splits
  these like any other authority.
\<close>


definition c0_control_or_space :: "char \<Rightarrow> bool" where
  "c0_control_or_space ch = ((of_char ch :: nat) \<le> 32)"

definition unsafe_url_byte :: "char \<Rightarrow> bool" where
  "unsafe_url_byte ch = ((of_char ch :: nat) \<in> {9, 13, 10})"

definition scheme_chars :: string where
  "scheme_chars = ''abcdefghijklmnopqrstuvwxyzABCDEFGHIJKLMNOPQRSTUVWXYZ0123456789+-.''"

definition ascii_alpha :: "char \<Rightarrow> bool" where
  "ascii_alpha ch = (let n = (of_char ch :: nat) in (65 \<le> n \<and> n \<le> 90) \<or> (97 \<le> n \<and> n \<le> 122))"

definition ascii_lower :: "char \<Rightarrow> char" where
  "ascii_lower ch = (let n = (of_char ch :: nat) in if 65 \<le> n \<and> n \<le> 90 then char_of (n + 32) else ch)"

definition uses_relative :: "string list" where
  "uses_relative = ['''', ''ftp'', ''http'', ''gopher'', ''nntp'', ''imap'', ''wais'', ''file'',
     ''https'', ''shttp'', ''mms'', ''prospero'', ''rtsp'', ''rtsps'', ''rtspu'', ''sftp'',
     ''svn'', ''svn+ssh'', ''ws'', ''wss'']"

definition uses_netloc :: "string list" where
  "uses_netloc = ['''', ''ftp'', ''http'', ''gopher'', ''nntp'', ''telnet'', ''imap'', ''wais'',
     ''file'', ''mms'', ''https'', ''shttp'', ''snews'', ''prospero'', ''rtsp'', ''rtsps'',
     ''rtspu'', ''rsync'', ''svn'', ''svn+ssh'', ''sftp'', ''nfs'', ''git'', ''git+ssh'',
     ''ws'', ''wss'']"

definition uses_params :: "string list" where
  "uses_params = ['''', ''ftp'', ''hdl'', ''prospero'', ''http'', ''imap'', ''https'', ''shttp'',
     ''rtsp'', ''rtsps'', ''rtspu'', ''sip'', ''sips'', ''mms'', ''sftp'', ''tel'']"

definition before_first :: "char \<Rightarrow> string \<Rightarrow> string" where
  "before_first ch s = takeWhile (\<lambda>x. x \<noteq> ch) s"

definition after_first :: "char \<Rightarrow> string \<Rightarrow> string" where
  "after_first ch s = drop 1 (dropWhile (\<lambda>x. x \<noteq> ch) s)"

fun py_split :: "char \<Rightarrow> string \<Rightarrow> string list" where
  "py_split sep [] = [[]]"
| "py_split sep (ch # s) =
     (if ch = sep then [] # py_split sep s
      else (case py_split sep s of [] \<Rightarrow> [[ch]] | x # xs \<Rightarrow> (ch # x) # xs))"

definition py_urlsplit :: "string \<Rightarrow> string \<Rightarrow> parsed_url" where
  "py_urlsplit url0 scheme0 =
     (let url1 = filter (\<lambda>ch. \<not> unsafe_url_byte ch) (dropWhile c0_control_or_space url0);
          scheme1 = filter (\<lambda>ch. \<not> unsafe_url_byte ch)
                      (rev (dropWhile c0_control_or_space
                         (rev (dropWhile c0_control_or_space scheme0))));
          has_scheme = (CHR '':'' \<in> set url1 \<and> before_first CHR '':'' url1 \<noteq> [] \<and>
                        ascii_alpha (hd url1) \<and>
                        (\<forall>ch \<in> set (before_first CHR '':'' url1). ch \<in> set scheme_chars));
          scheme2 = (if has_scheme then map ascii_lower (before_first CHR '':'' url1) else scheme1);
          url2 = (if has_scheme then after_first CHR '':'' url1 else url1);
          is_delim = (\<lambda>ch. ch = CHR ''/'' \<or> ch = CHR ''?'' \<or> ch = CHR ''#'');
          has_netloc = (take 2 url2 = ''//'');
          netloc2 = (if has_netloc then takeWhile (\<lambda>ch. \<not> is_delim ch) (drop 2 url2) else []);
          url3 = (if has_netloc then dropWhile (\<lambda>ch. \<not> is_delim ch) (drop 2 url2) else url2);
          fragment2 = (if CHR ''#'' \<in> set url3 then after_first CHR ''#'' url3 else []);
          url4 = (if CHR ''#'' \<in> set url3 then before_first CHR ''#'' url3 else url3);
          query2 = (if CHR ''?'' \<in> set url4 then after_first CHR ''?'' url4 else []);
          url5 = (if CHR ''?'' \<in> set url4 then before_first CHR ''?'' url4 else url4)
      in \<lparr> scheme = scheme2, netloc = netloc2, path = url5, params = [],
           query = query2, fragment = fragment2 \<rparr>)"

definition splitparams :: "string \<Rightarrow> string \<times> string" where
  "splitparams url =
     (if CHR ''/'' \<in> set url then
        (let last_seg = rev (before_first CHR ''/'' (rev url));
             front = take (length url - length last_seg) url
         in if CHR '';'' \<in> set last_seg
            then (front @ before_first CHR '';'' last_seg, after_first CHR '';'' last_seg)
            else (url, []))
      else (before_first CHR '';'' url, after_first CHR '';'' url))"

definition py_urlparse :: "string \<Rightarrow> string \<Rightarrow> parsed_url" where
  "py_urlparse url scheme0 =
     (let r = py_urlsplit url scheme0 in
        if scheme r \<in> set uses_params \<and> CHR '';'' \<in> set (path r)
        then r\<lparr> path := fst (splitparams (path r)), params := snd (splitparams (path r)) \<rparr>
        else r)"

definition py_urlunsplit :: "parsed_url \<Rightarrow> string" where
  "py_urlunsplit r =
     (let url1 = path r;
          url2 = (if netloc r \<noteq> [] \<or> (scheme r \<noteq> [] \<and> scheme r \<in> set uses_netloc) \<or> take 2 url1 = ''//''
                  then ''//'' @ netloc r @ (if url1 \<noteq> [] \<and> take 1 url1 \<noteq> ''/'' then ''/'' @ url1 else url1)
                  else url1);
          url3 = (if scheme r \<noteq> [] then scheme r @ '':'' @ url2 else url2);
          url4 = (if query r \<noteq> [] then url3 @ ''?'' @ query r else url3)
      in if fragment r \<noteq> [] then url4 @ ''#'' @ fragment r else url4)"

definition py_urlunparse :: "parsed_url \<Rightarrow> string" where
  "py_urlunparse r =
     (if params r \<noteq> [] then py_urlunsplit (r\<lparr> path := path r @ '';'' @ params r \<rparr>)
      else py_urlunsplit r)"

fun resolve_segments :: "string list \<Rightarrow> string list \<Rightarrow> string list" where
  "resolve_segments resolved [] = resolved"
| "resolve_segments resolved (seg # segs) =
     (if seg = ''..'' then resolve_segments (butlast resolved) segs
      else if seg = ''.'' then resolve_segments resolved segs
      else resolve_segments (resolved @ [seg]) segs)"

definition py_urljoin :: "string \<Rightarrow> string \<Rightarrow> string" where
  "py_urljoin base url =
     (if base = [] then url
      else if url = [] then base
      else
        let b = py_urlparse base [];
            u = py_urlparse url (scheme b)
        in if scheme u \<noteq> scheme b \<or> scheme u \<notin> set uses_relative then url
           else if scheme u \<in> set uses_netloc \<and> netloc u \<noteq> [] then py_urlunparse u
           else
             let u1 = (if scheme u \<in> set uses_netloc then u\<lparr> netloc := netloc b \<rparr> else u)
             in if path u1 = [] \<and> params u1 = [] then
                  py_urlunparse (u1\<lparr> path := path b, params := params b,
                                      query := (if query u1 = [] then query b else query u1) \<rparr>)
                else
                  let base_parts0 = py_split CHR ''/'' (path b);
                      base_parts = (if last base_parts0 \<noteq> [] then butlast base_parts0 else base_parts0);
                      segments =
                        (if take 1 (path u1) = ''/'' then py_split CHR ''/'' (path u1)
                         else (case base_parts @ py_split CHR ''/'' (path u1) of
                                 [] \<Rightarrow> []
                               | [x] \<Rightarrow> [x]
                               | x # rest \<Rightarrow> x # filter (\<lambda>s. s \<noteq> []) (butlast rest) @ [last rest]));
                      resolved0 = resolve_segments [] segments;
                      resolved = (if last segments \<in> {''.'', ''..''} then resolved0 @ [[]] else resolved0);
                      joined = py_join ''/'' resolved
                  in py_urlunparse (u1\<lparr> path := (if joined = [] then ''/'' else joined) \<rparr>))"

text \<open>The library as the crawler sees it, with the two network calls given.\<close>

definition py_env ::
  "(event list \<Rightarrow> string \<Rightarrow> error + robots) \<Rightarrow> (event list \<Rightarrow> string \<Rightarrow> error + response) \<Rightarrow> env" where
  "py_env rd gt = \<lparr> urlparse = (\<lambda>u. py_urlparse u []), urljoin = py_urljoin,
                     robots_read = rd, http_get = gt \<rparr>"

section \<open>\<open>urllib.robotparser\<close>\<close>

text \<open>
  A model of \<open>RobotFileParser.read\<close> and \<open>can_fetch\<close> of the Python standard library
  (CPython 3.11, \<open>Lib/urllib/robotparser.py\<close>), which \<open>is_allowed\<close> calls on lines 68 and
  74. \<open>read\<close> calls \<open>urlopen\<close> on the robots URL. An \<open>HTTPError\<close> is caught inside
  \<open>read\<close>: status 401 or 403 sets \<open>disallow_all\<close>, another status from 400 to 499 sets
  \<open>allow_all\<close>, any other status sets nothing, and \<open>read\<close> returns. Every other
  exception (no connection, a socket error, a body that is not UTF-8) leaves \<open>read\<close>.
  A body is parsed, which sets \<open>last_checked\<close>; the search of the parsed rules, the
  last part of \<open>can_fetch\<close>, is kept as a function \<open>rules\<close>.
\<close>

datatype robots_fetch = FetchRaises error | FetchHTTPError int | FetchBody robots

record robot_file_parser =
  disallow_all :: bool
  allow_all :: bool
  last_checked :: bool
  rules :: robots

definition new_parser :: robot_file_parser where
  "new_parser = \<lparr> disallow_all = False, allow_all = False, last_checked = False,
                   rules = (\<lambda>agent url. True) \<rparr>"

definition rp_read :: "robots_fetch \<Rightarrow> error + robot_file_parser" where
  "rp_read f =
     (case f of
        FetchRaises e \<Rightarrow> Inl e
      | FetchHTTPError code \<Rightarrow>
          if code = 401 \<or> code = 403 then Inr (new_parser\<lparr> disallow_all := True \<rparr>)
          else if code \<ge> 400 \<and> code < 500 then Inr (new_parser\<lparr> allow_all := True \<rparr>)
          else Inr new_parser
      | FetchBody r \<Rightarrow> Inr (new_parser\<lparr> last_checked := True, rules := r \<rparr>))"

definition can_fetch :: "robot_file_parser \<Rightarrow> robots" where
  "can_fetch rp agent url =
     (if disallow_all rp then False
      else if allow_all rp then True
      else if \<not> last_checked rp then False
      else rules rp agent url)"

text \<open>\<open>rp.read()\<close> followed by the answers of \<open>rp.can_fetch\<close>, for a given behaviour of
  \<open>urlopen\<close> on robots URLs.\<close>

definition py_robots_read ::
  "(event list \<Rightarrow> string \<Rightarrow> robots_fetch) \<Rightarrow> event list \<Rightarrow> string \<Rightarrow> error + robots" where
  "py_robots_read opn h u =
     (case rp_read (opn h u) of Inl e \<Rightarrow> Inl e | Inr rp \<Rightarrow> Inr (can_fetch rp))"

section \<open>Notions used in the statements\<close>

text \<open>A session that asks \<open>is_allowed\<close> about a list of URLs, one after the other.\<close>

fun is_allowed_seq ::
  "env \<Rightarrow> crawler \<Rightarrow> string list \<Rightarrow> event list \<Rightarrow> bool list \<times> crawler \<times> event list" where
  "is_allowed_seq env c [] log = ([], c, log)"
| "is_allowed_seq env c (u # us) log =
     (case is_allowed env c u log of (b, c1, log1) \<Rightarrow>
        (case is_allowed_seq env c1 us log1 of (bs, c2, log2) \<Rightarrow> (b # bs, c2, log2)))"

text \<open>
  A request for \<open>url\<close> issued after the trace \<open>h\<close> fails: \<open>requests.get\<close> raises, or the
  status is not 200, or the extraction raises (the three ways to reach \<open>return {}\<close>
  after line 143).
\<close>

definition fetch_failed :: "env \<Rightarrow> crawler \<Rightarrow> event list \<Rightarrow> string \<Rightarrow> bool" where
  "fetch_failed env c h url =
     (case http_get env h url of
        Inl e \<Rightarrow> True
      | Inr rsp \<Rightarrow> status_code rsp \<noteq> 200 \<or>
                  (case extract_content env c url (resp_text rsp) of Inl e \<Rightarrow> True | Inr d \<Rightarrow> False))"

text \<open>Every event of the trace with the depth of the item whose iteration emitted it.\<close>

fun phases :: "int \<Rightarrow> event list \<Rightarrow> int list" where
  "phases d [] = []"
| "phases d (Dequeued u e # evs) = e # phases e evs"
| "phases d (Visited u # evs) = d # phases d evs"
| "phases d (RobotsRead u # evs) = d # phases d evs"
| "phases d (Get u # evs) = d # phases d evs"

text \<open>\<open>link_path R seed n u\<close>: \<open>u\<close> is reached from \<open>seed\<close> by following \<open>n\<close> links, each
  one recorded in the \<open>links\<close> of a page of \<open>R\<close>.\<close>

inductive link_path :: "(string \<rightharpoonup> page_data) \<Rightarrow> string \<Rightarrow> nat \<Rightarrow> string \<Rightarrow> bool"
  for R :: "string \<rightharpoonup> page_data" and seed :: string where
  link_path_seed: "link_path R seed 0 seed"
| link_path_step: "link_path R seed n u \<Longrightarrow> R u = Some pd \<Longrightarrow> v \<in> set (links pd)
     \<Longrightarrow> link_path R seed (Suc n) v"

code_pred link_path .

section \<open>\<open>ResearchAgent\<close>: the context of the report\<close>

text \<open>
  \<open>crawled_data\<close> is read through \<open>dict.get\<close> with defaults, so each entry may be
  absent: \<open>None\<close> is a missing key. \<open>md_title\<close> is \<open>Some None\<close> when the title is
  Python's \<open>None\<close>.
\<close>

record metadata_dict =
  md_title :: "string option option"

record page_dict =
  d_content :: "string option"
  d_links :: "string list option"
  d_metadata :: "metadata_dict option"

text \<open>A document as \<open>KnowledgeBase.query\<close> returns it (its \<open>distance\<close> is not read).\<close>

record kb_doc =
  doc_text :: string
  doc_metadata :: "string \<rightharpoonup> string"

record page_summary =
  s_url :: string
  s_title :: "string option"
  content_preview :: string
  num_links :: nat

record crawled_summary =
  num_pages :: nat
  pages :: "page_summary list"

record kb_excerpt =
  excerpt_text :: string
  source :: string

record report_context =
  ctx_query :: string
  ctx_crawled_data :: crawled_summary
  relevant_documents :: "kb_excerpt list"

text \<open>Lines 51 to 56 of agent.py, for one item of \<open>crawled_data.items()\<close>.\<close>

definition summarize_page :: "string \<times> page_dict \<Rightarrow> page_summary" where
  "summarize_page item =
     (case item of (u, data) \<Rightarrow>
        let cnt = (case d_content data of None \<Rightarrow> [] | Some s \<Rightarrow> s) in
        \<lparr> s_url = u,
          s_title = (case d_metadata data of
                       None \<Rightarrow> Some ''No title''
                     | Some m \<Rightarrow> (case md_title m of None \<Rightarrow> Some ''No title'' | Some t \<Rightarrow> t)),
          content_preview = (if length cnt > 500 then take 500 cnt @ ''...'' else cnt),
          num_links = length (case d_links data of None \<Rightarrow> [] | Some ls \<Rightarrow> ls) \<rparr>)"

text \<open>Lines 62 to 65.\<close>

definition excerpt_of :: "kb_doc \<Rightarrow> kb_excerpt" where
  "excerpt_of doc =
     \<lparr> excerpt_text = (if length (doc_text doc) > 1000 then take 1000 (doc_text doc) @ ''...''
                       else doc_text doc),
       source = (case doc_metadata doc ''url'' of None \<Rightarrow> ''Unknown source'' | Some u \<Rightarrow> u) \<rparr>"

text \<open>\<open>_prepare_context\<close>; \<open>crawled\<close> is \<open>list(crawled_data.items())\<close>, in insertion order.\<close>

definition prepare_context :: "string \<Rightarrow> (string \<times> page_dict) list \<Rightarrow> kb_doc list \<Rightarrow> report_context" where
  "prepare_context q crawled relevant_docs =
     \<lparr> ctx_query = q,
       ctx_crawled_data = \<lparr> num_pages = length crawled,
                            pages = map summarize_page (take 10 crawled) \<rparr>,
       relevant_documents = map excerpt_of relevant_docs \<rparr>"

text \<open>
  Lines 31 and 34 of \<open>analyze\<close>: the context that goes to \<open>_generate_report\<close>.
  \<open>kb_query\<close> is the \<open>query\<close> method of the knowledge base passed to \<open>analyze\<close>.
\<close>

definition analyze_context ::
  "(string \<Rightarrow> int \<Rightarrow> kb_doc list) \<Rightarrow> string \<Rightarrow> (string \<times> page_dict) list \<Rightarrow> report_context" where
  "analyze_context kb_query q crawled = prepare_context q crawled (kb_query q 5)"

section \<open>A small site, for concrete runs\<close>

text \<open>Network behaviours: a robots.txt whose read raises, one that allows everything,
  one that the server answers with status 503, a host that refuses connections.\<close>

definition demo_robots_down :: "event list \<Rightarrow> string \<Rightarrow> error + robots" where
  "demo_robots_down h u = Inl (RequestError ''timed out'')"

definition demo_robots_open :: "event list \<Rightarrow> string \<Rightarrow> error + robots" where
  "demo_robots_open h u = Inr (\<lambda>agent url. True)"

definition demo_robots_503 :: "event list \<Rightarrow> string \<Rightarrow> error + robots" where
  "demo_robots_503 = py_robots_read (\<lambda>h u. FetchHTTPError 503)"

definition demo_no_site :: "event list \<Rightarrow> string \<Rightarrow> error + response" where
  "demo_no_site h u = Inl (RequestError ''connection refused'')"

text \<open>A knowledge base that answers with one long document, and a page with 501
  characters of content.\<close>

definition demo_kb :: "string \<Rightarrow> int \<Rightarrow> kb_doc list" where
  "demo_kb q n = [\<lparr> doc_text = replicate 1001 CHR ''b'', doc_metadata = Map.empty \<rparr>]"

definition demo_long_page :: "string \<times> page_dict" where
  "demo_long_page = (''https://ex.test/'',
     \<lparr> d_content = Some (replicate 501 CHR ''a''), d_links = None, d_metadata = None \<rparr>)"

text \<open>
  The site \<open>https://ex.test\<close>. Its front page links to another host, to \<open>a\<close>, \<open>/b\<close> and \<open>x\<close>;
  page \<open>a\<close> links to \<open>b\<close> and \<open>c\<close>; page \<open>b\<close> answers 404; page \<open>c\<close> links back to
  the front page; every other URL refuses the connection.
\<close>

definition anchor :: "string \<Rightarrow> node" where
  "anchor href = Tag ''a'' [(''href'', href)] [Text ''link'']"

definition demo_site :: "event list \<Rightarrow> string \<Rightarrow> error + response" where
  "demo_site h u =
     (if u = ''https://ex.test/'' then
        Inr \<lparr> status_code = 200,
              resp_text = [anchor ''https://other.test/y'', anchor ''a'', anchor ''/b'', anchor ''x''] \<rparr>
      else if u = ''https://ex.test/a'' then
        Inr \<lparr> status_code = 200, resp_text = [anchor ''b'', anchor ''c''] \<rparr>
      else if u = ''https://ex.test/b'' then
        Inr \<lparr> status_code = 404, resp_text = [] \<rparr>
      else if u = ''https://ex.test/c'' then
        Inr \<lparr> status_code = 200, resp_text = [anchor ''/''] \<rparr>
      else Inl (RequestError ''connection refused''))"

definition demo_env :: env where
  "demo_env = py_env demo_robots_open demo_site"

text \<open>Configured with depth 2 and one link per page, in exploratory mode: two links
  per page after the mode is resolved.\<close>

definition demo_crawler :: crawler where
  "demo_crawler = init_crawler True 2 1 ''exploratory''"

text \<open>What the crawl of this site from its front page returns: the pages, the crawler
  and the trace.\<close>

definition demo_page :: "string list \<Rightarrow> page_data" where
  "demo_page ls = \<lparr> content = [], links = ls,
       resources = \<lparr> images = [], scripts = [], stylesheets = [] \<rparr>,
       metadata = \<lparr> title = Some ''No title'', description = [], keywords_m = [] \<rparr> \<rparr>"

definition demo_results :: "string \<rightharpoonup> page_data" where
  "demo_results =
     [''https://ex.test/'' \<mapsto> demo_page [''https://ex.test/a'', ''https://ex.test/b''],
      ''https://ex.test/a'' \<mapsto> demo_page [''https://ex.test/b'', ''https://ex.test/c''],
      ''https://ex.test/c'' \<mapsto> demo_page [''https://ex.test/'']]"

definition demo_final :: crawler where
  "demo_final = demo_crawler
     \<lparr> robots_cache := [''https://ex.test'' \<mapsto> (\<lambda>agent url. True)],
       visited_urls := {''https://ex.test/c'', ''https://ex.test/b'', ''https://ex.test/a'',
                        ''https://ex.test/''} \<rparr>"

definition demo_trace :: "event list" where
  "demo_trace =
     [Dequeued ''https://ex.test/'' 0, Visited ''https://ex.test/'',
      RobotsRead ''https://ex.test'', Get ''https://ex.test/'',
      Dequeued ''https://ex.test/a'' 1, Visited ''https://ex.test/a'', Get ''https://ex.test/a'',
      Dequeued ''https://ex.test/b'' 1, Visited ''https://ex.test/b'', Get ''https://ex.test/b'',
      Dequeued ''https://ex.test/b'' 2,
      Dequeued ''https://ex.test/c'' 2, Visited ''https://ex.test/c'', Get ''https://ex.test/c'']"

text \<open>A page with one link to a fragment of a page of the same site.\<close>

definition demo_fragment_doc :: html where
  "demo_fragment_doc = [anchor ''page#section'']"

section \<open>Content extraction\<close>

text \<open>
  C3 (extraction is total). The page \<open><meta name="description">\<close> has a description tag
  with no \<open>content\<close> attribute: \<open>soup.find\<close> returns the tag, so the guard of line 112
  holds, and the subscript \<open>['content']\<close> raises \<open>KeyError\<close>. \<open>extract_content\<close> raises
  on this input, whatever the base URL and the configuration.
\<close>

theorem extract_content_raises_on_meta_without_content:
  "extract_content env c ''https://ex.test/'' [Tag ''meta'' [(''name'', ''description'')] []]
     = Inl (KeyError ''content'')"
  by (simp add: extract_content_def meta_content_def find_with_attr_def find_all_def
        all_tags_def get_item_def Let_def)

section \<open>Evaluating the library model\<close>

lemma py_env_sel:
  "urlparse (py_env rd gt) = (\<lambda>u. py_urlparse u [])" "urljoin (py_env rd gt) = py_urljoin"
  "robots_read (py_env rd gt) = rd" "http_get (py_env rd gt) = gt"
  by (simp_all add: py_env_def)

lemma origin_of_py:
  "origin_of (py_env rd gt) u = scheme (py_urlparse u []) @ ''://'' @ netloc (py_urlparse u [])"
  by (simp add: origin_of_def py_env_def Let_def)

lemma parse_page: "py_urlparse ''https://ex.test/page'' [] =
    \<lparr>scheme = ''https'', netloc = ''ex.test'', path = ''/page'', params = [], query = [], fragment = []\<rparr>"
  by code_simp

lemma parse_a: "py_urlparse ''https://ex.test/a'' [] =
    \<lparr>scheme = ''https'', netloc = ''ex.test'', path = ''/a'', params = [], query = [], fragment = []\<rparr>"
  by code_simp

lemma parse_b: "py_urlparse ''https://ex.test/b'' [] =
    \<lparr>scheme = ''https'', netloc = ''ex.test'', path = ''/b'', params = [], query = [], fragment = []\<rparr>"
  by code_simp

lemma join_robots: "py_urljoin ''https://ex.test'' ''/robots.txt'' = ''https://ex.test/robots.txt''"
  by code_simp


section \<open>The context of the report\<close>

lemma content_preview_length: "length (content_preview (summarize_page item)) \<le> 503"
  by (cases item) (simp add: summarize_page_def Let_def)

lemma excerpt_text_length: "length (excerpt_text (excerpt_of doc)) \<le> 1003"
  by (simp add: excerpt_of_def)

lemma demo_preview:
  "content_preview (summarize_page demo_long_page) = replicate 500 CHR ''a'' @ ''...''"
  by (simp add: summarize_page_def demo_long_page_def)

text \<open>
  C9. The bound of 500 characters does not hold: a page whose content has 501 characters gets a preview of 503
  characters, the first 500 followed by the three dots of line 54.
\<close>

theorem report_context_preview_counterexample:
  "\<not> length (content_preview (hd (pages (ctx_crawled_data
        (analyze_context demo_kb ''topic'' [demo_long_page]))))) \<le> 500"
  by (simp add: analyze_context_def prepare_context_def demo_preview)

text \<open>
  C9, as the code has it. The context holds at most 10 page summaries, the first 10 items of the
  crawled data; a preview is the content when it has at most 500 characters, else its
  first 500 characters followed by \<open>...\<close>, so at most 503 characters. It holds one
  excerpt for each document the knowledge base returned for \<open>n_results = 5\<close> (at most 5
  when the knowledge base honours that bound), each the text or its first 1000
  characters followed by \<open>...\<close>, so at most 1003 characters.
\<close>

theorem report_context_bounds:
  assumes "length (kb_query q 5) \<le> 5"
  shows "length (pages (ctx_crawled_data (analyze_context kb_query q crawled))) \<le> 10 \<and>
         (\<forall>p \<in> set (pages (ctx_crawled_data (analyze_context kb_query q crawled))).
            length (content_preview p) \<le> 503) \<and>
         pages (ctx_crawled_data (analyze_context kb_query q crawled))
           = map summarize_page (take 10 crawled) \<and>
         length (relevant_documents (analyze_context kb_query q crawled)) \<le> 5 \<and>
         relevant_documents (analyze_context kb_query q crawled)
           = map excerpt_of (kb_query q 5) \<and>
         (\<forall>d \<in> set (relevant_documents (analyze_context kb_query q crawled)).
            length (excerpt_text d) \<le> 1003)"
  using assms
  by (auto simp: analyze_context_def prepare_context_def content_preview_length
        excerpt_text_length)

theorem report_context_bounds_witness:
  "length (demo_kb ''topic'' 5) \<le> 5 \<and>
   length (pages (ctx_crawled_data
      (analyze_context demo_kb ''topic'' (replicate 11 demo_long_page)))) \<le> 10 \<and>
   length (relevant_documents
      (analyze_context demo_kb ''topic'' (replicate 11 demo_long_page))) \<le> 5"
proof -
  have h: "length (demo_kb ''topic'' 5) \<le> 5" by (simp add: demo_kb_def)
  from report_context_bounds[of demo_kb "''topic''" "replicate 11 demo_long_page", OF h] h
  show ?thesis by blast
qed

section \<open>Robots\<close>

lemma is_allowed_true_when_read_raises:
  assumes "\<not> respect_robots c \<or>
           (robots_cache c (origin_of env url) = None \<and>
            robots_read env log (urljoin env (origin_of env url) ''/robots.txt'') = Inl e)"
  shows "fst (is_allowed env c url log) = True"
  using assms by (auto simp: is_allowed_def Let_def)

text \<open>
  C5 (fail-open). \<open>is_allowed\<close> answers true when \<open>respect_robots\<close> is false and when
  \<open>rp.read()\<close> raises, which is what line 72 and its comment provide for. It does not
  answer true for every failure of the robots.txt fetch: when the server answers
  robots.txt with status 503, \<open>read\<close> catches the error and returns, the parser is
  cached, \<open>can_fetch\<close> answers false because nothing was parsed, and \<open>is_allowed\<close>
  answers false.
\<close>

theorem is_allowed_denies_on_robots_server_error:
  "is_allowed (py_env demo_robots_503 demo_no_site) (init_crawler True 3 5 ''stealth'')
      ''https://ex.test/page'' []
     = (False,
        init_crawler True 3 5 ''stealth''
          \<lparr> robots_cache := [''https://ex.test'' \<mapsto> can_fetch new_parser] \<rparr>,
        [RobotsRead ''https://ex.test''])"
  by (simp add: is_allowed_def origin_of_py parse_page init_crawler_def demo_robots_503_def
        py_robots_read_def rp_read_def can_fetch_def new_parser_def py_env_sel Let_def)


lemma is_allowed_cases:
  assumes "respect_robots c"
  shows "case robots_cache c (origin_of env url) of
           Some rp \<Rightarrow> is_allowed env c url log = (rp (user_agent c) url, c, log)
         | None \<Rightarrow>
            (case robots_read env log (urljoin env (origin_of env url) ''/robots.txt'') of
               Inr rp \<Rightarrow>
                 is_allowed env c url log =
                   (rp (user_agent c) url,
                    c\<lparr> robots_cache := (robots_cache c)(origin_of env url \<mapsto> rp) \<rparr>,
                    log @ [RobotsRead (origin_of env url)])
             | Inl e \<Rightarrow>
                 is_allowed env c url log = (True, c, log @ [RobotsRead (origin_of env url)]))"
  using assms by (simp add: is_allowed_def Let_def split: option.splits sum.splits)

lemma is_allowed_cache:
  assumes "is_allowed env c url log = (b, c', log')"
  shows "(case robots_cache c (origin_of env url) of
            Some rp \<Rightarrow> c' = c \<and> log' = log
          | None \<Rightarrow>
              if \<not> respect_robots c then c' = c \<and> log' = log
              else log' = log @ [RobotsRead (origin_of env url)] \<and>
                (case robots_read env log (urljoin env (origin_of env url) ''/robots.txt'') of
                   Inr rp \<Rightarrow> c' = c\<lparr> robots_cache := (robots_cache c)(origin_of env url \<mapsto> rp) \<rparr>
                 | Inl e \<Rightarrow> c' = c))"
  using assms
  by (auto simp: is_allowed_def Let_def split: option.splits sum.splits if_splits)

lemma is_allowed_seq_effect:
  assumes "is_allowed_seq env c us log = (bs, c', log')"
  shows "\<exists>evs. log' = log @ evs \<and>
      (\<forall>ou. ou \<in> dom (robots_cache c) \<longrightarrow> RobotsRead ou \<notin> set evs) \<and>
      (\<forall>pre post ou rp. evs = pre @ RobotsRead ou # post \<longrightarrow>
          robots_read env (log @ pre) (urljoin env ou ''/robots.txt'') = Inr rp \<longrightarrow>
          RobotsRead ou \<notin> set post \<and> robots_cache c' ou = Some rp) \<and>
      (\<forall>ou rp. robots_cache c ou = Some rp \<longrightarrow> robots_cache c' ou = Some rp) \<and>
      (\<forall>ou. robots_cache c ou = None \<longrightarrow>
          (\<forall>pre post rp. evs = pre @ RobotsRead ou # post \<longrightarrow>
             robots_read env (log @ pre) (urljoin env ou ''/robots.txt'') \<noteq> Inr rp) \<longrightarrow>
          robots_cache c' ou = None)"
  using assms
proof (induction us arbitrary: c log bs c' log')
  case Nil
  then show ?case by simp
next
  case (Cons u us)
  obtain b c1 log1 where ia: "is_allowed env c u log = (b, c1, log1)" by (metis prod_cases3)
  obtain bs2 c2 log2 where sq: "is_allowed_seq env c1 us log1 = (bs2, c2, log2)" by (metis prod_cases3)
  from Cons.prems ia sq have eq: "c' = c2" "log' = log2" by auto
  from Cons.IH[OF sq] obtain evs2 where e2: "log2 = log1 @ evs2"
      and old2: "\<forall>ou. ou \<in> dom (robots_cache c1) \<longrightarrow> RobotsRead ou \<notin> set evs2"
      and once2: "\<forall>pre post ou rp. evs2 = pre @ RobotsRead ou # post \<longrightarrow>
          robots_read env (log1 @ pre) (urljoin env ou ''/robots.txt'') = Inr rp \<longrightarrow>
          RobotsRead ou \<notin> set post \<and> robots_cache c2 ou = Some rp"
      and keep2: "\<forall>ou rp. robots_cache c1 ou = Some rp \<longrightarrow> robots_cache c2 ou = Some rp"
      and none2: "\<forall>ou. robots_cache c1 ou = None \<longrightarrow>
          (\<forall>pre post rp. evs2 = pre @ RobotsRead ou # post \<longrightarrow>
             robots_read env (log1 @ pre) (urljoin env ou ''/robots.txt'') \<noteq> Inr rp) \<longrightarrow>
          robots_cache c2 ou = None"
    by blast
  note eff = is_allowed_cache[OF ia]
  show ?case
  proof (cases "log1 = log")
    case True
    have c1: "c1 = c"
      using eff True by (auto split: option.splits sum.splits if_splits)
    have "log' = log @ evs2" using e2 eq True by simp
    with old2 once2 keep2 none2 show ?thesis unfolding c1 eq True by blast
  next
    case False
    let ?o = "origin_of env u"
    let ?rd = "robots_read env log (urljoin env ?o ''/robots.txt'')"
    from eff False have l1: "log1 = log @ [RobotsRead ?o]"
      and nc: "robots_cache c ?o = None"
      and rd: "(case ?rd of
                   Inr rp \<Rightarrow> c1 = c\<lparr> robots_cache := (robots_cache c)(?o \<mapsto> rp) \<rparr>
                 | Inl e \<Rightarrow> c1 = c)"
      by (auto split: option.splits if_splits)
    have other: "robots_cache c1 ou = robots_cache c ou" if "ou \<noteq> ?o" for ou
      using rd that by (auto split: sum.splits)
    have ok1: "robots_cache c1 ?o = Some rp" if "?rd = Inr rp" for rp
      using rd that by simp
    have bad1: "robots_cache c1 ?o = None" if "\<And>rp. ?rd \<noteq> Inr rp"
      using rd nc that by (cases ?rd) auto
    have P1: "\<forall>ou. ou \<in> dom (robots_cache c) \<longrightarrow> RobotsRead ou \<notin> set (RobotsRead ?o # evs2)"
    proof (intro allI impI)
      fix ou assume m: "ou \<in> dom (robots_cache c)"
      with nc have ne: "ou \<noteq> ?o" by auto
      with m other[OF ne] have "ou \<in> dom (robots_cache c1)" by (simp add: dom_def)
      with old2 have "RobotsRead ou \<notin> set evs2" by blast
      with ne show "RobotsRead ou \<notin> set (RobotsRead ?o # evs2)" by simp
    qed
    have P2: "RobotsRead ou \<notin> set post \<and> robots_cache c2 ou = Some rp"
      if d: "RobotsRead ?o # evs2 = pre @ RobotsRead ou # post"
        and ok: "robots_read env (log @ pre) (urljoin env ou ''/robots.txt'') = Inr rp"
      for pre post ou rp
    proof (cases pre)
      case Nil
      with d have o: "ou = ?o" and p: "post = evs2" by auto
      from ok Nil o have "?rd = Inr rp" by simp
      from ok1[OF this] have c1o: "robots_cache c1 ou = Some rp" using o by simp
      then have "ou \<in> dom (robots_cache c1)" by auto
      with old2 p have "RobotsRead ou \<notin> set post" by blast
      moreover from keep2 c1o have "robots_cache c2 ou = Some rp" by blast
      ultimately show ?thesis by simp
    next
      case (Cons p pre')
      with d have d2: "evs2 = pre' @ RobotsRead ou # post" and p: "p = RobotsRead ?o" by auto
      from ok Cons p l1 have "robots_read env (log1 @ pre') (urljoin env ou ''/robots.txt'') = Inr rp"
        by simp
      with once2 d2 show ?thesis by blast
    qed
    have P3: "robots_cache c2 ou = Some rp" if "robots_cache c ou = Some rp" for ou rp
    proof -
      from that nc have "ou \<noteq> ?o" by auto
      from other[OF this] that have "robots_cache c1 ou = Some rp" by simp
      with keep2 show ?thesis by blast
    qed
    have P4: "robots_cache c2 ou = None"
      if n: "robots_cache c ou = None"
        and f: "\<forall>pre post rp. RobotsRead ?o # evs2 = pre @ RobotsRead ou # post \<longrightarrow>
             robots_read env (log @ pre) (urljoin env ou ''/robots.txt'') \<noteq> Inr rp"
      for ou
    proof -
      have f2: "robots_read env (log1 @ pre) (urljoin env ou ''/robots.txt'') \<noteq> Inr rp"
        if "evs2 = pre @ RobotsRead ou # post" for pre post rp
      proof -
        from that have "RobotsRead ?o # evs2 = (RobotsRead ?o # pre) @ RobotsRead ou # post" by simp
        with f have "robots_read env (log @ RobotsRead ?o # pre) (urljoin env ou ''/robots.txt'') \<noteq> Inr rp"
          by blast
        then show ?thesis using l1 by simp
      qed
      have "robots_cache c1 ou = None"
      proof (cases "ou = ?o")
        case True
        have "?rd \<noteq> Inr rp" for rp
        proof -
          have "RobotsRead ?o # evs2 = [] @ RobotsRead ou # evs2" using True by simp
          with f have "robots_read env (log @ []) (urljoin env ou ''/robots.txt'') \<noteq> Inr rp" by blast
          then show ?thesis using True by simp
        qed
        from bad1[OF this] True show ?thesis by simp
      next
        case False
        from other[OF this] n show ?thesis by simp
      qed
      with none2 f2 show ?thesis by blast
    qed
    have "log' = log @ (RobotsRead ?o # evs2)" using e2 eq l1 by simp
    with P1 P2 P3 P4 show ?thesis unfolding eq by blast
  qed
qed

lemma is_allowed_twice_after_failed_read:
  assumes rr: "respect_robots c" and o: "origin_of env u2 = origin_of env u1"
    and nc: "robots_cache c (origin_of env u1) = None"
    and fl: "robots_read env log (urljoin env (origin_of env u1) ''/robots.txt'') = Inl e"
  shows "\<exists>b c2. is_allowed_seq env c [u1, u2] log =
           ([True, b], c2, log @ [RobotsRead (origin_of env u1), RobotsRead (origin_of env u1)])"
proof -
  let ?o = "origin_of env u1"
  from is_allowed_cases[OF rr, of env u1 log] nc fl
  have 1: "is_allowed env c u1 log = (True, c, log @ [RobotsRead ?o])" by simp
  from is_allowed_cases[OF rr, of env u2 "log @ [RobotsRead ?o]"] nc o
  have "\<exists>b c2. is_allowed env c u2 (log @ [RobotsRead ?o]) = (b, c2, (log @ [RobotsRead ?o]) @ [RobotsRead ?o])"
    by (cases "robots_read env (log @ [RobotsRead ?o]) (urljoin env ?o ''/robots.txt'')") auto
  then obtain b c2 where
    2: "is_allowed env c u2 (log @ [RobotsRead ?o]) = (b, c2, (log @ [RobotsRead ?o]) @ [RobotsRead ?o])"
    by blast
  from 1 2 show ?thesis by simp
qed

text \<open>
  C4. A failed read is not cached: when the read of robots.txt raises, nothing is
  cached, and the next query for the same origin reads again. Two queries for
  \<open>https://ex.test\<close> with a robots.txt whose read raises give two reads.
\<close>

theorem robots_refetched_after_failed_read_counterexample:
  "snd (snd (is_allowed_seq (py_env demo_robots_down demo_no_site) (init_crawler True 3 5 ''stealth'')
               [''https://ex.test/a'', ''https://ex.test/b''] []))
     = [RobotsRead ''https://ex.test'', RobotsRead ''https://ex.test'']"
  by (simp add: is_allowed_def origin_of_py parse_a parse_b init_crawler_def demo_robots_down_def
        py_env_sel Let_def)

text \<open>
  C4, as the code has it, for a crawler that respects robots.txt. One call: for an
  origin in the cache, \<open>is_allowed\<close> answers with the cached parser and reads nothing;
  for an origin not in the cache it reads robots.txt once, and when the read
  returns it caches the parser under the origin and answers with it, while when the
  read raises it caches nothing and answers true. A sequence of calls of one session:
  no robots.txt is read for an origin that is in the cache at the start; once a read
  for an origin has returned, its parser stays in the cache and no later call reads
  robots.txt for that origin; entries of the cache are never replaced; an origin whose
  reads all raised is not in the cache at the end. After a read that raised, the
  next call for the same origin reads again.
\<close>

theorem robots_cache_reuse:
  "(respect_robots c \<longrightarrow>
      (case robots_cache c (origin_of env url) of
         Some rp \<Rightarrow> is_allowed env c url log = (rp (user_agent c) url, c, log)
       | None \<Rightarrow>
          (case robots_read env log (urljoin env (origin_of env url) ''/robots.txt'') of
             Inr rp \<Rightarrow>
               is_allowed env c url log =
                 (rp (user_agent c) url,
                  c\<lparr> robots_cache := (robots_cache c)(origin_of env url \<mapsto> rp) \<rparr>,
                  log @ [RobotsRead (origin_of env url)])
           | Inl e \<Rightarrow>
               is_allowed env c url log = (True, c, log @ [RobotsRead (origin_of env url)])))) \<and>
   (is_allowed_seq env c us log = (bs, c', log') \<longrightarrow>
      (\<exists>evs. log' = log @ evs \<and>
        (\<forall>ou. ou \<in> dom (robots_cache c) \<longrightarrow> RobotsRead ou \<notin> set evs) \<and>
        (\<forall>pre post ou rp. evs = pre @ RobotsRead ou # post \<longrightarrow>
            robots_read env (log @ pre) (urljoin env ou ''/robots.txt'') = Inr rp \<longrightarrow>
            RobotsRead ou \<notin> set post \<and> robots_cache c' ou = Some rp) \<and>
        (\<forall>ou rp. robots_cache c ou = Some rp \<longrightarrow> robots_cache c' ou = Some rp) \<and>
        (\<forall>ou. robots_cache c ou = None \<longrightarrow>
            (\<forall>pre post rp. evs = pre @ RobotsRead ou # post \<longrightarrow>
               robots_read env (log @ pre) (urljoin env ou ''/robots.txt'') \<noteq> Inr rp) \<longrightarrow>
            robots_cache c' ou = None))) \<and>
   (respect_robots c \<longrightarrow> origin_of env u2 = origin_of env u1 \<longrightarrow>
      robots_cache c (origin_of env u1) = None \<longrightarrow>
      robots_read env log (urljoin env (origin_of env u1) ''/robots.txt'') = Inl e \<longrightarrow>
      (\<exists>b c2. is_allowed_seq env c [u1, u2] log =
           ([True, b], c2, log @ [RobotsRead (origin_of env u1), RobotsRead (origin_of env u1)])))"
  using is_allowed_cases[of c env url log] is_allowed_seq_effect[of env c us log bs c' log']
    is_allowed_twice_after_failed_read[of c env u2 u1 log e]
  by blast

theorem robots_cache_reuse_witness:
  "respect_robots (init_crawler True 3 5 ''stealth'') \<and>
   robots_cache (init_crawler True 3 5 ''stealth'')
      (origin_of (py_env demo_robots_open demo_no_site) ''https://ex.test/a'') = None \<and>
   robots_read (py_env demo_robots_open demo_no_site) []
      (urljoin (py_env demo_robots_open demo_no_site)
         (origin_of (py_env demo_robots_open demo_no_site) ''https://ex.test/a'') ''/robots.txt'')
     = Inr (\<lambda>agent url. True) \<and>
   is_allowed (py_env demo_robots_open demo_no_site) (init_crawler True 3 5 ''stealth'')
      ''https://ex.test/a'' []
     = (True,
        init_crawler True 3 5 ''stealth''
          \<lparr> robots_cache := (robots_cache (init_crawler True 3 5 ''stealth''))
               (origin_of (py_env demo_robots_open demo_no_site) ''https://ex.test/a''
                  \<mapsto> (\<lambda>agent url. True)) \<rparr>,
        [] @ [RobotsRead (origin_of (py_env demo_robots_open demo_no_site) ''https://ex.test/a'')]) \<and>
   snd (snd (is_allowed_seq (py_env demo_robots_open demo_no_site) (init_crawler True 3 5 ''stealth'')
               [''https://ex.test/a'', ''https://ex.test/b''] []))
     = [RobotsRead ''https://ex.test'']"
proof -
  let ?E = "py_env demo_robots_open demo_no_site"
  let ?C = "init_crawler True 3 5 ''stealth''"
  have r: "respect_robots ?C" by (simp add: init_crawler_def)
  have n: "robots_cache ?C (origin_of ?E ''https://ex.test/a'') = None"
    by (simp add: init_crawler_def)
  have rd: "robots_read ?E [] (urljoin ?E (origin_of ?E ''https://ex.test/a'') ''/robots.txt'')
              = Inr (\<lambda>agent url. True)"
    by (simp add: py_env_sel demo_robots_open_def)
  have lg: "snd (snd (is_allowed_seq ?E ?C [''https://ex.test/a'', ''https://ex.test/b''] []))
              = [RobotsRead ''https://ex.test'']"
    by (simp add: is_allowed_def origin_of_py parse_a parse_b init_crawler_def
          demo_robots_open_def py_env_sel Let_def)
  from robots_cache_reuse[of ?C ?E "''https://ex.test/a''" "[]"] r
  have "case robots_cache ?C (origin_of ?E ''https://ex.test/a'') of
         Some rp \<Rightarrow> is_allowed ?E ?C ''https://ex.test/a'' [] = (rp (user_agent ?C) ''https://ex.test/a'', ?C, [])
       | None \<Rightarrow>
          (case robots_read ?E [] (urljoin ?E (origin_of ?E ''https://ex.test/a'') ''/robots.txt'') of
             Inr rp \<Rightarrow>
               is_allowed ?E ?C ''https://ex.test/a'' [] =
                 (rp (user_agent ?C) ''https://ex.test/a'',
                  ?C\<lparr> robots_cache := (robots_cache ?C)(origin_of ?E ''https://ex.test/a'' \<mapsto> rp) \<rparr>,
                  [] @ [RobotsRead (origin_of ?E ''https://ex.test/a'')])
           | Inl e \<Rightarrow>
               is_allowed ?E ?C ''https://ex.test/a'' [] =
                 (True, ?C, [] @ [RobotsRead (origin_of ?E ''https://ex.test/a'')]))"
    by blast
  then have "is_allowed ?E ?C ''https://ex.test/a'' []
     = (True,
        ?C\<lparr> robots_cache := (robots_cache ?C)(origin_of ?E ''https://ex.test/a'' \<mapsto> (\<lambda>agent url. True)) \<rparr>,
        [] @ [RobotsRead (origin_of ?E ''https://ex.test/a'')])"
    unfolding n rd by simp
  with r n rd lg show ?thesis by blast
qed


section \<open>One iteration of the crawl loop\<close>

text \<open>
  A property that holds before the loop and is kept by every iteration holds when the
  loop has ended, with the queue empty.
\<close>

lemma crawl_loop_rule:
  assumes "Inv s"
    and "\<And>c R url depth q log. Inv (c, R, (url, depth) # q, log)
           \<Longrightarrow> Inv (loop_body env url depth (c, R, q, log @ [Dequeued url depth]))"
  shows "case crawl_loop env s of (R', c', log') \<Rightarrow> Inv (c', R', [], log')"
proof -
  have "(\<forall>c R url depth q log. Inv (c, R, (url, depth) # q, log)
           \<longrightarrow> Inv (loop_body env url depth (c, R, q, log @ [Dequeued url depth])))
        \<longrightarrow> Inv s \<longrightarrow> (case crawl_loop env s of (R', c', log') \<Rightarrow> Inv (c', R', [], log'))"
  proof (induction env s rule: crawl_loop.induct)
    case (1 env c results log)
    show ?case by simp
  next
    case (2 env c results url depth queue log)
    show ?case using 2 by simp
  qed
  then show ?thesis by (simp add: assms)
qed

lemma extract_content_cong:
  "link_limit c' = link_limit c \<Longrightarrow> extract_content env c' url soup = extract_content env c url soup"
  by (simp add: extract_content_def)

lemma is_allowed_effect:
  assumes "is_allowed env c url log = (b, c', log')"
  shows "crawl_depth c' = crawl_depth c \<and> link_limit c' = link_limit c \<and>
         visited_urls c' = visited_urls c \<and> respect_robots c' = respect_robots c \<and>
         user_agent c' = user_agent c \<and>
         (log' = log \<or> log' = log @ [RobotsRead (origin_of env url)])"
  using assms
  by (auto simp: is_allowed_def Let_def split: if_splits option.splits sum.splits)

lemma crawl_url_effect:
  assumes "crawl_url env c url depth log = (data, c', log')"
    and "url \<notin> visited_urls c" and "depth \<le> crawl_depth c"
  shows "visited_urls c' = insert url (visited_urls c) \<and>
         crawl_depth c' = crawl_depth c \<and> link_limit c' = link_limit c \<and>
         respect_robots c' = respect_robots c \<and> user_agent c' = user_agent c \<and>
         (\<exists>rr. (rr = [] \<or> rr = [RobotsRead (origin_of env url)]) \<and>
            ((log' = log @ Visited url # rr \<and> data = Map.empty) \<or>
             (log' = log @ Visited url # rr @ [Get url] \<and>
              (if fetch_failed env c (log @ Visited url # rr) url then data = Map.empty
               else \<exists>rsp pd. http_get env (log @ Visited url # rr) url = Inr rsp \<and>
                      status_code rsp = 200 \<and>
                      extract_content env c url (resp_text rsp) = Inr pd \<and>
                      data = [url \<mapsto> pd]))))"
proof -
  obtain b c2 log2 where ia:
    "is_allowed env (c\<lparr>visited_urls := insert url (visited_urls c)\<rparr>) url (log @ [Visited url]) = (b, c2, log2)"
    by (metis prod_cases3)
  from is_allowed_effect[OF ia] have cfg:
    "crawl_depth c2 = crawl_depth c" "link_limit c2 = link_limit c"
    "visited_urls c2 = insert url (visited_urls c)" "respect_robots c2 = respect_robots c"
    "user_agent c2 = user_agent c"
    and lg: "log2 = log @ [Visited url] \<or> log2 = log @ [Visited url] @ [RobotsRead (origin_of env url)]"
    by auto
  define rr where "rr = (if log2 = log @ [Visited url] then [] else [RobotsRead (origin_of env url)])"
  have rr: "rr = [] \<or> rr = [RobotsRead (origin_of env url)]" by (simp add: rr_def)
  have log2: "log2 = log @ Visited url # rr" using lg by (auto simp: rr_def)
  have ec: "\<And>soup. extract_content env c2 url soup = extract_content env c url soup"
    using cfg(2) by (rule extract_content_cong)
  show ?thesis
  proof (cases b)
    case False
    with assms ia have "data = Map.empty" "c' = c2" "log' = log2"
      by (auto simp: crawl_url_def Let_def)
    with cfg rr log2 show ?thesis by auto
  next
    case True
    with assms ia have c': "c' = c2" and l': "log' = log2 @ [Get url]"
      by (auto simp: crawl_url_def Let_def split: sum.splits if_splits)
    have d: "if fetch_failed env c log2 url then data = Map.empty
       else \<exists>rsp pd. http_get env log2 url = Inr rsp \<and> status_code rsp = 200 \<and>
                      extract_content env c url (resp_text rsp) = Inr pd \<and> data = [url \<mapsto> pd]"
      using assms ia True
      by (auto simp: crawl_url_def Let_def fetch_failed_def ec split: sum.splits if_splits)
    show ?thesis using cfg rr c' l' d unfolding log2 by auto
  qed
qed

lemma loop_body_skip:
  "url \<in> visited_urls c \<or> depth > crawl_depth c \<Longrightarrow>
     loop_body env url depth (c, R, q, log) = (c, R, q, log)"
  by (simp add: loop_body_def)

lemma loop_body_process:
  assumes "url \<notin> visited_urls c" and "depth \<le> crawl_depth c"
  shows "\<exists>c' data rr gg new.
     loop_body env url depth (c, R, q, log)
       = (c', R ++ data, q @ map (\<lambda>l. (l, depth + 1)) new, log @ Visited url # rr @ gg) \<and>
     visited_urls c' = insert url (visited_urls c) \<and> crawl_depth c' = crawl_depth c \<and>
     link_limit c' = link_limit c \<and>
     (rr = [] \<or> rr = [RobotsRead (origin_of env url)]) \<and>
     ((gg = [] \<and> data = Map.empty \<and> new = []) \<or>
      (gg = [Get url] \<and> fetch_failed env c (log @ Visited url # rr) url \<and>
         data = Map.empty \<and> new = []) \<or>
      (gg = [Get url] \<and> \<not> fetch_failed env c (log @ Visited url # rr) url \<and>
         (\<exists>rsp pd. http_get env (log @ Visited url # rr) url = Inr rsp \<and>
            status_code rsp = 200 \<and> extract_content env c url (resp_text rsp) = Inr pd \<and>
            data = [url \<mapsto> pd] \<and>
            new = filter (\<lambda>l. l \<notin> insert url (visited_urls c)) (links pd))))"
proof -
  obtain data c' log' where cu: "crawl_url env c url depth log = (data, c', log')"
    by (metis prod_cases3)
  from crawl_url_effect[OF cu assms] obtain rr where
    cfg: "visited_urls c' = insert url (visited_urls c)" "crawl_depth c' = crawl_depth c"
         "link_limit c' = link_limit c"
    and rr: "rr = [] \<or> rr = [RobotsRead (origin_of env url)]"
    and cases: "(log' = log @ Visited url # rr \<and> data = Map.empty) \<or>
             (log' = log @ Visited url # rr @ [Get url] \<and>
              (if fetch_failed env c (log @ Visited url # rr) url then data = Map.empty
               else \<exists>rsp pd. http_get env (log @ Visited url # rr) url = Inr rsp \<and>
                      status_code rsp = 200 \<and>
                      extract_content env c url (resp_text rsp) = Inr pd \<and>
                      data = [url \<mapsto> pd]))"
    by blast
  have lb: "loop_body env url depth (c, R, q, log) =
      (c', R ++ data,
       (case data url of
          Some d \<Rightarrow> q @ map (\<lambda>link. (link, depth + 1))
                             (filter (\<lambda>link. link \<notin> visited_urls c') (links d))
        | None \<Rightarrow> q), log')"
    using assms cu by (simp add: loop_body_def)
  from cases show ?thesis
  proof (elim disjE conjE)
    assume "log' = log @ Visited url # rr" "data = Map.empty"
    with lb cfg rr show ?thesis
      by (intro exI[of _ c'] exI[of _ data] exI[of _ rr] exI[of _ "[]"]) simp
  next
    assume l: "log' = log @ Visited url # rr @ [Get url]"
      and d: "if fetch_failed env c (log @ Visited url # rr) url then data = Map.empty
               else \<exists>rsp pd. http_get env (log @ Visited url # rr) url = Inr rsp \<and>
                      status_code rsp = 200 \<and>
                      extract_content env c url (resp_text rsp) = Inr pd \<and>
                      data = [url \<mapsto> pd]"
    show ?thesis
    proof (cases "fetch_failed env c (log @ Visited url # rr) url")
      case True
      with d have "data = Map.empty" by simp
      with lb cfg rr l True show ?thesis
        by (intro exI[of _ c'] exI[of _ data] exI[of _ rr] exI[of _ "[Get url]"] exI[of _ "[]"]) simp
    next
      case False
      with d obtain rsp pd where p: "http_get env (log @ Visited url # rr) url = Inr rsp"
        "status_code rsp = 200" "extract_content env c url (resp_text rsp) = Inr pd"
        "data = [url \<mapsto> pd]" by auto
      with lb cfg rr l False show ?thesis
        by (intro exI[of _ c'] exI[of _ data] exI[of _ rr] exI[of _ "[Get url]"]
              exI[of _ "filter (\<lambda>l. l \<notin> insert url (visited_urls c)) (links pd)"]) simp
    qed
  qed
qed


section \<open>The trace of a crawl\<close>

text \<open>
  What holds of the trace and of the visited set between two iterations: the visited set is the set of URLs with a visit in the trace, every URL is visited and requested at most once, a request for a URL comes after its visit, a visit comes right after the pop of its item, and a read of robots.txt comes after the visit of a URL of that origin.
\<close>

definition trace_inv :: "env \<Rightarrow> string set \<Rightarrow> event list \<Rightarrow> bool" where
  "trace_inv env V log \<longleftrightarrow>
     V = {u. Visited u \<in> set log} \<and>
     (\<forall>u. count_list log (Visited u) \<le> 1) \<and>
     (\<forall>u. count_list log (Get u) \<le> 1) \<and>
     (\<forall>pre post u. log = pre @ Get u # post \<longrightarrow> Visited u \<in> set pre) \<and>
     (\<forall>pre post u. log = pre @ Visited u # post \<longrightarrow> (\<exists>pre' d. pre = pre' @ [Dequeued u d])) \<and>
     (\<forall>pre post ou. log = pre @ RobotsRead ou # post \<longrightarrow>
         (\<exists>u. Visited u \<in> set pre \<and> origin_of env u = ou))"

lemma append_eq_split:
  "xs @ ys = pre @ x # post \<longleftrightarrow>
     (\<exists>post'. xs = pre @ x # post' \<and> post = post' @ ys) \<or>
     (\<exists>pre'. pre = xs @ pre' \<and> ys = pre' @ x # post)"
  by (auto simp: append_eq_append_conv2 append_eq_Cons_conv Cons_eq_append_conv)

lemma before_append:
  assumes "log @ ys = pre @ x # post"
    and "\<And>pre post. log = pre @ x # post \<Longrightarrow> Q pre"
    and "\<And>pre' post. ys = pre' @ x # post \<Longrightarrow> Q (log @ pre')"
  shows "Q pre"
  using assms unfolding append_eq_split by blast

lemma trace_inv_init: "trace_inv env {} []"
  by (simp add: trace_inv_def)

lemma trace_inv_skip:
  assumes "trace_inv env V log"
  shows "trace_inv env V (log @ [Dequeued url d])"
  unfolding trace_inv_def
proof (intro conjI allI impI)
  show "V = {u. Visited u \<in> set (log @ [Dequeued url d])}"
    using assms by (simp add: trace_inv_def)
  show "count_list (log @ [Dequeued url d]) (Visited u) \<le> 1" for u
    using assms by (simp add: trace_inv_def)
  show "count_list (log @ [Dequeued url d]) (Get u) \<le> 1" for u
    using assms by (simp add: trace_inv_def)
  show "Visited u \<in> set pre" if "log @ [Dequeued url d] = pre @ Get u # post" for pre post u
    using that
  proof (rule before_append)
    show "Visited u \<in> set pre" if "log = pre @ Get u # post" for pre post
      using assms that unfolding trace_inv_def by blast
  qed (simp add: Cons_eq_append_conv)
  show "\<exists>pre' d. pre = pre' @ [Dequeued u d]"
    if "log @ [Dequeued url d] = pre @ Visited u # post" for pre post u
    using that
  proof (rule before_append)
    show "\<exists>pre' d. pre = pre' @ [Dequeued u d]" if "log = pre @ Visited u # post" for pre post
      using assms that unfolding trace_inv_def by blast
  qed (simp add: Cons_eq_append_conv)
  show "\<exists>u. Visited u \<in> set pre \<and> origin_of env u = ou"
    if "log @ [Dequeued url d] = pre @ RobotsRead ou # post" for pre post ou
    using that
  proof (rule before_append)
    show "\<exists>u. Visited u \<in> set pre \<and> origin_of env u = ou" if "log = pre @ RobotsRead ou # post" for pre post
      using assms that unfolding trace_inv_def by blast
  qed (simp add: Cons_eq_append_conv)
qed

lemma trace_inv_process:
  assumes inv: "trace_inv env V log" and nv: "url \<notin> V"
    and rr: "rr = [] \<or> rr = [RobotsRead (origin_of env url)]"
    and gg: "gg = [] \<or> gg = [Get url]"
  shows "trace_inv env (insert url V) (log @ Dequeued url d # Visited url # rr @ gg)"
  unfolding trace_inv_def
proof (intro conjI allI impI)
  let ?ys = "Dequeued url d # Visited url # rr @ gg"
  from inv nv have nvis: "Visited url \<notin> set log" by (auto simp: trace_inv_def)
  have nget: "Get url \<notin> set log"
  proof
    assume "Get url \<in> set log"
    then obtain pre post where "log = pre @ Get url # post" by (meson split_list)
    with inv have "Visited url \<in> set pre" unfolding trace_inv_def by blast
    with \<open>log = pre @ Get url # post\<close> nvis show False by simp
  qed
  show "insert url V = {u. Visited u \<in> set (log @ ?ys)}"
    using inv rr gg by (auto simp: trace_inv_def)
  show "count_list (log @ ?ys) (Visited u) \<le> 1" for u
  proof (cases "u = url")
    case True
    with nvis have "count_list log (Visited u) = 0" by (simp add: count_list_0_iff)
    with True rr gg show ?thesis by auto
  next
    case False
    with inv rr gg show ?thesis by (auto simp: trace_inv_def)
  qed
  show "count_list (log @ ?ys) (Get u) \<le> 1" for u
  proof (cases "u = url")
    case True
    with nget have "count_list log (Get u) = 0" by (simp add: count_list_0_iff)
    with True rr gg show ?thesis by auto
  next
    case False
    with inv rr gg show ?thesis by (auto simp: trace_inv_def)
  qed
  show "Visited u \<in> set pre" if "log @ ?ys = pre @ Get u # post" for pre post u
    using that
  proof (rule before_append)
    show "Visited u \<in> set pre" if "log = pre @ Get u # post" for pre post
      using inv that unfolding trace_inv_def by blast
    show "Visited u \<in> set (log @ pre')" if "?ys = pre' @ Get u # post" for pre' post
      using that rr gg by (auto simp: Cons_eq_append_conv)
  qed
  show "\<exists>pre' d. pre = pre' @ [Dequeued u d]" if "log @ ?ys = pre @ Visited u # post" for pre post u
    using that
  proof (rule before_append)
    show "\<exists>pre' d. pre = pre' @ [Dequeued u d]" if "log = pre @ Visited u # post" for pre post
      using inv that unfolding trace_inv_def by blast
    show "\<exists>p d. log @ pre' = p @ [Dequeued u d]" if "?ys = pre' @ Visited u # post" for pre' post
      using that rr gg by (auto simp: Cons_eq_append_conv)
  qed
  show "\<exists>u. Visited u \<in> set pre \<and> origin_of env u = ou"
    if "log @ ?ys = pre @ RobotsRead ou # post" for pre post ou
    using that
  proof (rule before_append)
    show "\<exists>u. Visited u \<in> set pre \<and> origin_of env u = ou" if "log = pre @ RobotsRead ou # post" for pre post
      using inv that unfolding trace_inv_def by blast
    show "\<exists>u. Visited u \<in> set (log @ pre') \<and> origin_of env u = ou"
      if "?ys = pre' @ RobotsRead ou # post" for pre' post
      using that rr gg by (auto simp: Cons_eq_append_conv)
  qed
qed

lemma trace_inv_step:
  assumes "trace_inv env (visited_urls c) log"
  shows "case loop_body env url depth (c, R, q, log @ [Dequeued url depth]) of
           (c', R', q', log') \<Rightarrow> trace_inv env (visited_urls c') log'"
proof (cases "url \<in> visited_urls c \<or> depth > crawl_depth c")
  case True
  then show ?thesis using trace_inv_skip[OF assms] by (simp add: loop_body_skip)
next
  case False
  then have a: "url \<notin> visited_urls c" "depth \<le> crawl_depth c" by auto
  from loop_body_process[OF a, of env R q "log @ [Dequeued url depth]"]
  obtain c' data rr gg new where
    lb: "loop_body env url depth (c, R, q, log @ [Dequeued url depth])
       = (c', R ++ data, q @ map (\<lambda>l. (l, depth + 1)) new,
          (log @ [Dequeued url depth]) @ Visited url # rr @ gg)"
    and v: "visited_urls c' = insert url (visited_urls c)"
    and rr: "rr = [] \<or> rr = [RobotsRead (origin_of env url)]"
    and gg: "gg = [] \<or> gg = [Get url]"
    by blast
  from trace_inv_process[OF assms a(1) rr gg, of depth] show ?thesis
    by (simp add: lb v)
qed

lemma crawl_trace_inv:
  "case crawl env c seed of (R, c', log) \<Rightarrow> trace_inv env (visited_urls c') log"
proof -
  define Inv :: "crawl_state \<Rightarrow> bool"
    where "Inv = (\<lambda>s. case s of (c, R, q, log) \<Rightarrow> trace_inv env (visited_urls c) log)"
  have init: "Inv (c\<lparr>visited_urls := {}\<rparr>, Map.empty, [(seed, 0)], [])"
    by (simp add: Inv_def trace_inv_init)
  have step: "Inv (loop_body env url depth (c, R, q, log @ [Dequeued url depth]))"
    if "Inv (c, R, (url, depth) # q, log)" for c R url depth q log
    using trace_inv_step[of env c log url depth R q] that by (simp add: Inv_def)
  from crawl_loop_rule[of Inv, OF init step] show ?thesis
    by (simp add: crawl_def Inv_def split: prod.splits)
qed


section \<open>The pages of the result\<close>

text \<open>
  Every page of the result was extracted from a response with status 200 to a request of the trace.
\<close>

definition results_inv :: "env \<Rightarrow> crawler \<Rightarrow> (string \<rightharpoonup> page_data) \<Rightarrow> event list \<Rightarrow> bool" where
  "results_inv env c R log \<longleftrightarrow>
     (\<forall>u pd. R u = Some pd \<longrightarrow>
        (\<exists>pre post rsp. log = pre @ Get u # post \<and> http_get env pre u = Inr rsp \<and>
           status_code rsp = 200 \<and> extract_content env c u (resp_text rsp) = Inr pd))"

lemma results_inv_extend:
  assumes "results_inv env c R log"
  shows "results_inv env c R (log @ evs)"
  unfolding results_inv_def
proof (intro allI impI)
  fix u pd assume "R u = Some pd"
  with assms obtain pre post rsp where "log = pre @ Get u # post" "http_get env pre u = Inr rsp"
    "status_code rsp = 200" "extract_content env c u (resp_text rsp) = Inr pd"
    unfolding results_inv_def by blast
  then have "log @ evs = pre @ Get u # (post @ evs) \<and> http_get env pre u = Inr rsp \<and>
           status_code rsp = 200 \<and> extract_content env c u (resp_text rsp) = Inr pd" by simp
  then show "\<exists>pre post rsp. log @ evs = pre @ Get u # post \<and> http_get env pre u = Inr rsp \<and>
           status_code rsp = 200 \<and> extract_content env c u (resp_text rsp) = Inr pd" by blast
qed

lemma results_inv_add:
  assumes "results_inv env c R log"
    and "http_get env (log @ evs) url = Inr rsp" and "status_code rsp = 200"
    and "extract_content env c url (resp_text rsp) = Inr pd"
  shows "results_inv env c (R ++ [url \<mapsto> pd]) (log @ evs @ [Get url])"
  unfolding results_inv_def
proof (intro allI impI)
  fix u pd' assume a: "(R ++ [url \<mapsto> pd]) u = Some pd'"
  show "\<exists>pre post rsp. log @ evs @ [Get url] = pre @ Get u # post \<and> http_get env pre u = Inr rsp \<and>
           status_code rsp = 200 \<and> extract_content env c u (resp_text rsp) = Inr pd'"
  proof (cases "u = url")
    case True
    with a have "pd' = pd" by simp
    with True assms(2-4) have "log @ evs @ [Get url] = (log @ evs) @ Get u # [] \<and>
        http_get env (log @ evs) u = Inr rsp \<and>
        status_code rsp = 200 \<and> extract_content env c u (resp_text rsp) = Inr pd'" by simp
    then show ?thesis by blast
  next
    case False
    with a have "R u = Some pd'" by simp
    with results_inv_extend[OF assms(1), of "evs @ [Get url]"] show ?thesis
      unfolding results_inv_def by blast
  qed
qed

lemma results_inv_cong:
  "link_limit c' = link_limit c \<Longrightarrow> results_inv env c' R log = results_inv env c R log"
  by (simp add: results_inv_def extract_content_cong[of c' c])

lemma results_inv_step:
  assumes "results_inv env c R log"
  shows "case loop_body env url depth (c, R, q, log @ [Dequeued url depth]) of
           (c', R', q', log') \<Rightarrow> link_limit c' = link_limit c \<and> crawl_depth c' = crawl_depth c \<and>
              results_inv env c R' log'"
proof (cases "url \<in> visited_urls c \<or> depth > crawl_depth c")
  case True
  then show ?thesis using results_inv_extend[OF assms] by (simp add: loop_body_skip)
next
  case False
  then have a: "url \<notin> visited_urls c" "depth \<le> crawl_depth c" by auto
  let ?l = "log @ [Dequeued url depth]"
  from loop_body_process[OF a, of env R q ?l]
  obtain c' data rr gg new where
    lb: "loop_body env url depth (c, R, q, ?l)
       = (c', R ++ data, q @ map (\<lambda>l. (l, depth + 1)) new, ?l @ Visited url # rr @ gg)"
    and cfg: "crawl_depth c' = crawl_depth c" "link_limit c' = link_limit c"
    and cases: "(gg = [] \<and> data = Map.empty \<and> new = []) \<or>
      (gg = [Get url] \<and> fetch_failed env c (?l @ Visited url # rr) url \<and>
         data = Map.empty \<and> new = []) \<or>
      (gg = [Get url] \<and> \<not> fetch_failed env c (?l @ Visited url # rr) url \<and>
         (\<exists>rsp pd. http_get env (?l @ Visited url # rr) url = Inr rsp \<and>
            status_code rsp = 200 \<and> extract_content env c url (resp_text rsp) = Inr pd \<and>
            data = [url \<mapsto> pd] \<and>
            new = filter (\<lambda>l. l \<notin> insert url (visited_urls c)) (links pd)))"
    by blast
  have "results_inv env c (R ++ data) (?l @ Visited url # rr @ gg)"
    using cases
  proof (elim disjE conjE exE)
    assume "data = Map.empty"
    then show ?thesis
      using results_inv_extend[OF assms, of "[Dequeued url depth] @ Visited url # rr @ gg"] by simp
  next
    assume "data = Map.empty"
    then show ?thesis
      using results_inv_extend[OF assms, of "[Dequeued url depth] @ Visited url # rr @ gg"] by simp
  next
    fix rsp pd
    assume g: "gg = [Get url]"
      and h: "http_get env (?l @ Visited url # rr) url = Inr rsp" "status_code rsp = 200"
             "extract_content env c url (resp_text rsp) = Inr pd"
      and d: "data = [url \<mapsto> pd]"
    from h(1) have h1: "http_get env (log @ (Dequeued url depth # Visited url # rr)) url = Inr rsp"
      by simp
    from results_inv_add[OF assms h1 h(2,3)] show ?thesis using g d by simp
  qed
  with lb cfg show ?thesis by simp
qed

lemma crawl_results_inv:
  "case crawl env c seed of (R, c', log) \<Rightarrow>
     link_limit c' = link_limit c \<and> crawl_depth c' = crawl_depth c \<and> results_inv env c R log"
proof -
  define Inv :: "crawl_state \<Rightarrow> bool"
    where "Inv = (\<lambda>s. case s of (c', R, q, log) \<Rightarrow>
       link_limit c' = link_limit c \<and> crawl_depth c' = crawl_depth c \<and> results_inv env c R log)"
  have init: "Inv (c\<lparr>visited_urls := {}\<rparr>, Map.empty, [(seed, 0)], [])"
    by (simp add: Inv_def results_inv_def)
  have step: "Inv (loop_body env url depth (c', R, q, log @ [Dequeued url depth]))"
    if "Inv (c', R, (url, depth) # q, log)" for c' R url depth q log
  proof -
    from that have l: "link_limit c' = link_limit c" "crawl_depth c' = crawl_depth c"
      and r: "results_inv env c' R log"
      by (simp_all add: Inv_def results_inv_cong[of c' c])
    from results_inv_step[OF r, of url depth q] l show ?thesis
      by (auto simp: Inv_def results_inv_cong[of c' c] split: prod.splits)
  qed
  from crawl_loop_rule[of Inv, OF init step] show ?thesis
    by (simp add: crawl_def Inv_def split: prod.splits)
qed


section \<open>Depth of discovery\<close>

text \<open>
  Every item of the queue, and every page of the result, is reached from the seed by a path of recorded links, of the length the item carries; the pages of the result within the depth bound.
\<close>

lemma link_path_mono:
  assumes "link_path R seed n u" and "R \<subseteq>\<^sub>m R'"
  shows "link_path R' seed n u"
  using assms
proof (induction rule: link_path.induct)
  case link_path_seed
  show ?case by (rule link_path.link_path_seed)
next
  case (link_path_step n u pd v)
  from link_path_step.hyps(2) link_path_step.prems have "R' u = Some pd"
    by (auto simp: map_le_def dom_def)
  with link_path_step show ?case by (blast intro: link_path.link_path_step)
qed

definition depth_inv :: "string \<Rightarrow> int \<Rightarrow> crawl_state \<Rightarrow> bool" where
  "depth_inv seed D s \<longleftrightarrow>
     (case s of (c, R, q, log) \<Rightarrow>
        crawl_depth c = D \<and> dom R \<subseteq> visited_urls c \<and>
        (\<forall>(u, d) \<in> set q. 0 \<le> d \<and> link_path R seed (nat d) u) \<and>
        (\<forall>u \<in> dom R. \<exists>n. int n \<le> D \<and> link_path R seed n u))"

lemma depth_inv_step:
  assumes inv: "depth_inv seed D (c, R, (url, depth) # q, log)"
  shows "depth_inv seed D (loop_body env url depth (c, R, q, log @ [Dequeued url depth]))"
proof -
  from inv have D: "crawl_depth c = D" and sub: "dom R \<subseteq> visited_urls c"
    and hd: "0 \<le> depth" "link_path R seed (nat depth) url"
    and q: "\<forall>(u, d) \<in> set q. 0 \<le> d \<and> link_path R seed (nat d) u"
    and res: "\<forall>u \<in> dom R. \<exists>n. int n \<le> D \<and> link_path R seed n u"
    by (auto simp: depth_inv_def)
  show ?thesis
  proof (cases "url \<in> visited_urls c \<or> depth > crawl_depth c")
    case True
    then show ?thesis using D sub q res by (simp add: loop_body_skip depth_inv_def)
  next
    case False
    then have a: "url \<notin> visited_urls c" "depth \<le> crawl_depth c" by auto
    let ?l = "log @ [Dequeued url depth]"
    from loop_body_process[OF a, of env R q ?l]
    obtain c' data rr gg new where
      lb: "loop_body env url depth (c, R, q, ?l)
         = (c', R ++ data, q @ map (\<lambda>l. (l, depth + 1)) new, ?l @ Visited url # rr @ gg)"
      and v: "visited_urls c' = insert url (visited_urls c)"
      and cd: "crawl_depth c' = crawl_depth c"
      and cases: "(data = Map.empty \<and> new = []) \<or>
           (\<exists>pd. data = [url \<mapsto> pd] \<and>
              new = filter (\<lambda>l. l \<notin> insert url (visited_urls c)) (links pd))"
      by blast
    from cases show ?thesis
    proof (elim disjE conjE exE)
      assume "data = Map.empty" "new = []"
      with lb v cd D sub q res show ?thesis by (auto simp: depth_inv_def)
    next
      fix pd assume d: "data = [url \<mapsto> pd]"
        and n: "new = filter (\<lambda>l. l \<notin> insert url (visited_urls c)) (links pd)"
      let ?R = "R(url \<mapsto> pd)"
      from a(1) sub have "url \<notin> dom R" by blast
      then have le: "R \<subseteq>\<^sub>m ?R" by (auto simp: map_le_def)
      have RR: "R ++ data = ?R" using d by simp
      have p_url: "link_path ?R seed (nat depth) url"
        using link_path_mono[OF hd(2) le] .
      have 1: "dom ?R \<subseteq> visited_urls c'" using sub v by auto
      have 2: "\<forall>(u, d) \<in> set (q @ map (\<lambda>l. (l, depth + 1)) new).
                 0 \<le> d \<and> link_path ?R seed (nat d) u"
      proof (intro ballI, clarify)
        fix u d assume m: "(u, d) \<in> set (q @ map (\<lambda>l. (l, depth + 1)) new)"
        show "0 \<le> d \<and> link_path ?R seed (nat d) u"
        proof (cases "(u, d) \<in> set q")
          case True
          with q have "0 \<le> d" "link_path R seed (nat d) u" by auto
          with link_path_mono[OF _ le] show ?thesis by blast
        next
          case False
          with m n have ud: "d = depth + 1" "u \<in> set (links pd)" by auto
          have "link_path ?R seed (Suc (nat depth)) u"
            by (rule link_path.link_path_step[OF p_url _ ud(2)]) simp
          moreover have "nat d = Suc (nat depth)" using ud(1) hd(1) by simp
          ultimately show ?thesis using ud(1) hd(1) by simp
        qed
      qed
      have 3: "\<forall>u \<in> dom ?R. \<exists>n. int n \<le> D \<and> link_path ?R seed n u"
      proof
        fix u assume "u \<in> dom ?R"
        then consider "u = url" | "u \<in> dom R" by auto
        then show "\<exists>n. int n \<le> D \<and> link_path ?R seed n u"
        proof cases
          case 1
          have "int (nat depth) \<le> D" using hd(1) a(2) D by simp
          with p_url 1 show ?thesis by blast
        next
          case 2
          with res obtain n where "int n \<le> D" "link_path R seed n u" by blast
          with link_path_mono[OF _ le] show ?thesis by blast
        qed
      qed
      from 1 2 3 cd D show ?thesis unfolding lb RR depth_inv_def by simp
    qed
  qed
qed

lemma crawl_depth_inv:
  "case crawl env c seed of (R, c', log) \<Rightarrow> depth_inv seed (crawl_depth c) (c', R, [], log)"
proof -
  have init: "depth_inv seed (crawl_depth c) (c\<lparr>visited_urls := {}\<rparr>, Map.empty, [(seed, 0)], [])"
    by (simp add: depth_inv_def link_path.link_path_seed)
  from crawl_loop_rule[of "depth_inv seed (crawl_depth c)", OF init depth_inv_step] show ?thesis
    by (simp add: crawl_def split: prod.splits)
qed


section \<open>Breadth-first order\<close>

text \<open>
  The depths that tag the events of the trace never decrease: the queue is sorted by depth and holds only items of the current depth and of the next.
\<close>

lemma phases_append:
  "phases d (xs @ ys) = phases d xs @ phases (last (d # phases d xs)) ys"
  by (induction d xs rule: phases.induct) simp_all

definition cur_phase :: "event list \<Rightarrow> int" where
  "cur_phase log = last (0 # phases 0 log)"

lemma phases_snoc_dequeued:
  "phases 0 (log @ [Dequeued u d]) = phases 0 log @ [d]"
  by (simp add: phases_append)

lemma phases_iteration:
  assumes "rr = [] \<or> rr = [RobotsRead ou]" and "gg = [] \<or> gg = [Get url]"
  shows "phases 0 ((log @ [Dequeued url d]) @ Visited url # rr @ gg)
           = phases 0 log @ d # replicate (length (Visited url # rr @ gg)) d"
proof -
  have "phases d (Visited url # rr @ gg) = replicate (length (Visited url # rr @ gg)) d"
    using assms by auto
  moreover have "last (0 # phases 0 (log @ [Dequeued url d])) = d"
    by (simp add: phases_snoc_dequeued)
  ultimately show ?thesis
    using phases_append[of 0 "log @ [Dequeued url d]" "Visited url # rr @ gg"]
    by (simp only: phases_snoc_dequeued append_assoc append_Cons append_Nil)
qed

lemma sorted_le_last:
  "sorted (xs :: int list) \<Longrightarrow> x \<in> set xs \<Longrightarrow> x \<le> last xs"
  by (induction xs) (auto split: if_splits)

lemma le_cur_phase:
  assumes "sorted (phases 0 log)" and "x \<in> set (phases 0 log)"
  shows "x \<le> cur_phase log"
proof -
  from assms(2) have ne: "phases 0 log \<noteq> []" by auto
  have "x \<le> last (phases 0 log)"
    using assms by (rule sorted_le_last)
  with ne show ?thesis by (simp add: cur_phase_def)
qed

definition bfs_inv :: "crawl_state \<Rightarrow> bool" where
  "bfs_inv s \<longleftrightarrow>
     (case s of (c, R, q, log) \<Rightarrow>
        sorted (phases 0 log) \<and> 0 \<le> cur_phase log \<and> sorted (map snd q) \<and>
        (\<forall>(u, d) \<in> set q. cur_phase log \<le> d \<and> d \<le> cur_phase log + 1))"

lemma bfs_inv_step:
  assumes inv: "bfs_inv (c, R, (url, depth) # q, log)"
  shows "bfs_inv (loop_body env url depth (c, R, q, log @ [Dequeued url depth]))"
proof -
  let ?l = "log @ [Dequeued url depth]"
  from inv have s: "sorted (phases 0 log)" and nn: "0 \<le> cur_phase log"
    and sq: "sorted (map snd ((url, depth) # q))"
    and b: "cur_phase log \<le> depth" "depth \<le> cur_phase log + 1"
    and bq: "\<forall>(u, d) \<in> set q. cur_phase log \<le> d \<and> d \<le> cur_phase log + 1"
    by (auto simp: bfs_inv_def)
  have le_d: "x \<le> depth" if "x \<in> set (phases 0 log)" for x
    using le_cur_phase[OF s that] b(1) by simp
  have s1: "sorted (phases 0 ?l)"
    unfolding phases_snoc_dequeued using s le_d by (simp add: sorted_append)
  have cur1: "cur_phase ?l = depth"
    by (simp add: cur_phase_def phases_snoc_dequeued)
  have sq1: "sorted (map snd q)" using sq by simp
  have bq1: "\<forall>(u, d) \<in> set q. depth \<le> d \<and> d \<le> depth + 1"
    using sq bq b by auto
  have d0: "0 \<le> depth" using nn b(1) by simp
  show ?thesis
  proof (cases "url \<in> visited_urls c \<or> depth > crawl_depth c")
    case True
    then show ?thesis using s1 sq1 bq1 cur1 d0
      by (simp add: loop_body_skip bfs_inv_def)
  next
    case False
    then have a: "url \<notin> visited_urls c" "depth \<le> crawl_depth c" by auto
    from loop_body_process[OF a, of env R q ?l]
    obtain c' data rr gg new where
      lb: "loop_body env url depth (c, R, q, ?l)
         = (c', R ++ data, q @ map (\<lambda>l. (l, depth + 1)) new, ?l @ Visited url # rr @ gg)"
      and rr: "rr = [] \<or> rr = [RobotsRead (origin_of env url)]"
      and gg: "gg = [] \<or> gg = [Get url]"
      by blast
    let ?evs = "Visited url # rr @ gg"
    note ph2 = phases_iteration[OF rr gg, of log depth]
    have s2: "sorted (phases 0 (?l @ ?evs))"
      unfolding ph2 using s le_d by (simp add: sorted_append)
    have cur2: "cur_phase (?l @ ?evs) = depth"
      unfolding cur_phase_def ph2 by simp
    have m: "map snd (map (\<lambda>l. (l, depth + 1)) new) = replicate (length new) (depth + 1)"
      by (induction new) simp_all
    have sq2: "sorted (map snd (q @ map (\<lambda>l. (l, depth + 1)) new))"
      using sq1 bq1 unfolding map_append m by (auto simp: sorted_append)
    have bq2: "\<forall>(u, d) \<in> set (q @ map (\<lambda>l. (l, depth + 1)) new). depth \<le> d \<and> d \<le> depth + 1"
      using bq1 by auto
    show ?thesis unfolding lb bfs_inv_def using s2 cur2 sq2 bq2 d0
      by (simp del: append.simps set_append)
  qed
qed

lemma crawl_bfs_inv:
  "case crawl env c seed of (R, c', log) \<Rightarrow> sorted (phases 0 log)"
proof -
  have init: "bfs_inv (c\<lparr>visited_urls := {}\<rparr>, Map.empty, [(seed, 0)], [])"
    by (simp add: bfs_inv_def cur_phase_def)
  from crawl_loop_rule[of bfs_inv _ env, OF init bfs_inv_step] show ?thesis
    by (simp add: crawl_def bfs_inv_def split: prod.splits del: crawl_loop.simps)
qed


section \<open>The crawl of the small site\<close>

lemma parse_demo:
  "py_urlparse ''https://ex.test/'' [] =
    \<lparr>scheme = ''https'', netloc = ''ex.test'', path = ''/'', params = [], query = [], fragment = []\<rparr>"
  "py_urlparse ''https://ex.test/c'' [] =
    \<lparr>scheme = ''https'', netloc = ''ex.test'', path = ''/c'', params = [], query = [], fragment = []\<rparr>"
  "py_urlparse ''https://ex.test/x'' [] =
    \<lparr>scheme = ''https'', netloc = ''ex.test'', path = ''/x'', params = [], query = [], fragment = []\<rparr>"
  "py_urlparse ''https://other.test/y'' [] =
    \<lparr>scheme = ''https'', netloc = ''other.test'', path = ''/y'', params = [], query = [], fragment = []\<rparr>"
  "py_urlparse ''https://ex.test/page#section'' [] =
    \<lparr>scheme = ''https'', netloc = ''ex.test'', path = ''/page'', params = [], query = [],
      fragment = ''section''\<rparr>"
  by code_simp+

lemma join_demo:
  "py_urljoin ''https://ex.test/'' ''https://other.test/y'' = ''https://other.test/y''"
  "py_urljoin ''https://ex.test/'' ''a'' = ''https://ex.test/a''"
  "py_urljoin ''https://ex.test/'' ''/b'' = ''https://ex.test/b''"
  "py_urljoin ''https://ex.test/'' ''x'' = ''https://ex.test/x''"
  "py_urljoin ''https://ex.test/a'' ''b'' = ''https://ex.test/b''"
  "py_urljoin ''https://ex.test/a'' ''c'' = ''https://ex.test/c''"
  "py_urljoin ''https://ex.test/c'' ''/'' = ''https://ex.test/''"
  "py_urljoin ''https://ex.test/'' ''page#section'' = ''https://ex.test/page#section''"
  by code_simp+

lemmas extract_defs = extract_content_def internal_links_def link_ok_def meta_content_def
  find_with_attr_def find_first_def attr_values_def find_all_def all_tags_def anchor_def
  py_slice_to_def List.map_filter_def

lemma demo_run:
  "crawl demo_env demo_crawler ''https://ex.test/'' = (demo_results, demo_final, demo_trace)"
  by (simp add: crawl_def loop_body_def crawl_url_def is_allowed_def extract_defs
        origin_of_py py_env_sel parse_page parse_a parse_b parse_demo join_robots join_demo
        demo_env_def demo_crawler_def init_crawler_def demo_site_def demo_robots_open_def
        demo_results_def demo_final_def demo_trace_def demo_page_def Let_def)

lemma demo_config:
  "crawl_depth demo_crawler = 2" "link_limit demo_crawler = 2" "respect_robots demo_crawler"
  by (simp_all add: demo_crawler_def init_crawler_def)


section \<open>Properties of a crawl\<close>

lemma count_le_one_split:
  assumes "count_list xs x \<le> 1" and "xs = pre @ x # post"
  shows "x \<notin> set pre \<and> x \<notin> set post"
proof -
  from assms have "count_list pre x + count_list post x = 0" by simp
  then show ?thesis by (simp add: count_list_0_iff)
qed

lemma takeWhile_split:
  "x \<notin> set pre \<Longrightarrow> takeWhile (\<lambda>y. y \<noteq> x) (pre @ x # post) = pre"
  by (induction pre) auto

lemma unique_split:
  assumes "count_list xs x \<le> 1" and "xs = pre @ x # post" and "xs = pre' @ x # post'"
  shows "pre = pre'"
proof -
  from count_le_one_split[OF assms(1,2)] have "takeWhile (\<lambda>y. y \<noteq> x) xs = pre"
    unfolding assms(2) by (simp add: takeWhile_split)
  moreover from count_le_one_split[OF assms(1,3)] have "takeWhile (\<lambda>y. y \<noteq> x) xs = pre'"
    unfolding assms(3) by (simp add: takeWhile_split)
  ultimately show ?thesis by simp
qed

text \<open>
  C1 (visited once). In the trace of a crawl, a URL is requested at most once and
  enters the visited set at most once; a request for a URL comes after the URL has
  entered the visited set; a read of robots.txt comes after the visit of a URL of that
  origin; the visited set at the end holds the URLs with a visit in the trace.
\<close>

theorem crawl_visits_once:
  assumes "crawl env c seed = (R, c', log)"
  shows "count_list log (Get u) \<le> 1 \<and> count_list log (Visited u) \<le> 1 \<and>
         (\<forall>pre post. log = pre @ Get u # post \<longrightarrow>
            Visited u \<in> set pre \<and> Get u \<notin> set pre \<and> Get u \<notin> set post) \<and>
         (\<forall>pre post ou. log = pre @ RobotsRead ou # post \<longrightarrow>
            (\<exists>v. Visited v \<in> set pre \<and> origin_of env v = ou)) \<and>
         (u \<in> visited_urls c' \<longleftrightarrow> Visited u \<in> set log)"
proof -
  from crawl_trace_inv[where env=env and c=c and seed=seed] assms have inv: "trace_inv env (visited_urls c') log"
    by simp
  then have g: "count_list log (Get u) \<le> 1" and v: "count_list log (Visited u) \<le> 1"
    and b: "\<And>pre post. log = pre @ Get u # post \<Longrightarrow> Visited u \<in> set pre"
    and r: "\<forall>pre post ou. log = pre @ RobotsRead ou # post \<longrightarrow>
            (\<exists>v. Visited v \<in> set pre \<and> origin_of env v = ou)"
    and m: "visited_urls c' = {u. Visited u \<in> set log}"
    unfolding trace_inv_def by blast+
  have "Visited u \<in> set pre \<and> Get u \<notin> set pre \<and> Get u \<notin> set post"
    if "log = pre @ Get u # post" for pre post
    using b[OF that] count_le_one_split[OF g that] by simp
  with g v r m show ?thesis by blast
qed

theorem crawl_visits_once_witness:
  "crawl demo_env demo_crawler ''https://ex.test/'' = (demo_results, demo_final, demo_trace) \<and>
   demo_trace = take 9 demo_trace @ Get ''https://ex.test/b'' # drop 10 demo_trace \<and>
   count_list demo_trace (Get ''https://ex.test/b'') \<le> 1 \<and>
   Visited ''https://ex.test/b'' \<in> set (take 9 demo_trace) \<and>
   Get ''https://ex.test/b'' \<notin> set (drop 10 demo_trace)"
proof -
  have d: "demo_trace = take 9 demo_trace @ Get ''https://ex.test/b'' # drop 10 demo_trace"
    by (simp add: demo_trace_def)
  from crawl_visits_once[OF demo_run, of "''https://ex.test/b''"] d demo_run
  show ?thesis by blast
qed

text \<open>
  C2 (depth bound). Every URL that is a key of the result is reached from the seed
  by a path of links recorded in the result, of a length that is at most the
  crawler's \<open>crawl_depth\<close> (the depth after the mode is resolved); so a URL that no such
  path reaches within the bound is not a key of the result.
\<close>

theorem crawl_depth_bound:
  assumes "crawl env c seed = (R, c', log)"
  shows "(\<forall>pd. R u = Some pd \<longrightarrow> (\<exists>n. int n \<le> crawl_depth c \<and> link_path R seed n u)) \<and>
         ((\<forall>n. link_path R seed n u \<longrightarrow> crawl_depth c < int n) \<longrightarrow> R u = None)"
proof -
  from crawl_depth_inv[where env=env and c=c and seed=seed] assms
  have "depth_inv seed (crawl_depth c) (c', R, [], log)" by simp
  then have 1: "\<exists>n. int n \<le> crawl_depth c \<and> link_path R seed n u" if "R u = Some pd" for pd
    using that by (auto simp: depth_inv_def)
  have 2: "R u = None" if far: "\<forall>n. link_path R seed n u \<longrightarrow> crawl_depth c < int n"
  proof (rule ccontr)
    assume "R u \<noteq> None"
    then obtain pd where "R u = Some pd" by auto
    from 1[OF this] obtain n where "int n \<le> crawl_depth c" "link_path R seed n u" by blast
    with far show False by fastforce
  qed
  from 1 2 show ?thesis by blast
qed

theorem crawl_depth_bound_witness:
  "crawl demo_env demo_crawler ''https://ex.test/'' = (demo_results, demo_final, demo_trace) \<and>
   demo_results ''https://ex.test/c'' = Some (demo_page [''https://ex.test/'']) \<and>
   crawl_depth demo_crawler = 2 \<and>
   (\<exists>n. int n \<le> crawl_depth demo_crawler \<and>
        link_path demo_results ''https://ex.test/'' n ''https://ex.test/c'')"
proof -
  have r: "demo_results ''https://ex.test/c'' = Some (demo_page [''https://ex.test/''])"
    by (simp add: demo_results_def)
  from crawl_depth_bound[OF demo_run, of "''https://ex.test/c''"] demo_run r demo_config(1)
  show ?thesis by blast
qed

lemma dequeued_in_phases:
  "Dequeued v e \<in> set evs \<Longrightarrow> e \<in> set (phases d evs)"
  by (induction d evs rule: phases.induct) auto

text \<open>
  C6 (breadth-first order). Tag every event of the trace with the depth of the item
  whose iteration emitted it: the tags never decrease, so every pop, visit, robots
  read and request for an item at depth \<open>d\<close> comes before the pop of any item at a
  greater depth. A pop that follows the pop of an item at depth \<open>d\<close> is at depth \<open>d\<close>
  or more, and a visit comes right after the pop of its own item.
\<close>

theorem crawl_breadth_first:
  assumes "crawl env c seed = (R, c', log)"
  shows "sorted (phases 0 log) \<and>
         (\<forall>pre post u d v e. log = pre @ Dequeued u d # post \<longrightarrow> Dequeued v e \<in> set post
             \<longrightarrow> d \<le> e) \<and>
         (\<forall>pre post u. log = pre @ Visited u # post \<longrightarrow> (\<exists>pre' d. pre = pre' @ [Dequeued u d]))"
proof -
  from crawl_bfs_inv[where env=env and c=c and seed=seed] assms
  have s: "sorted (phases 0 log)" by simp
  from crawl_trace_inv[where env=env and c=c and seed=seed] assms
  have v: "\<forall>pre post u. log = pre @ Visited u # post \<longrightarrow> (\<exists>pre' d. pre = pre' @ [Dequeued u d])"
    unfolding trace_inv_def by simp
  have "d \<le> e" if l: "log = pre @ Dequeued u d # post" and m: "Dequeued v e \<in> set post"
    for pre post u d v e
  proof -
    have "phases 0 log = phases 0 pre @ d # phases d post"
      unfolding l by (simp add: phases_append)
    with s have "\<forall>x \<in> set (phases d post). d \<le> x" by (simp add: sorted_append)
    with dequeued_in_phases[OF m] show ?thesis by blast
  qed
  with s v show ?thesis by blast
qed

theorem crawl_breadth_first_witness:
  "crawl demo_env demo_crawler ''https://ex.test/'' = (demo_results, demo_final, demo_trace) \<and>
   sorted (phases 0 demo_trace) \<and>
   phases 0 demo_trace = [0, 0, 0, 0, 1, 1, 1, 1, 1, 1, 2, 2, 2, 2] \<and>
   filter (\<lambda>ev. case ev of Visited u \<Rightarrow> True | _ \<Rightarrow> False) demo_trace
     = [Visited ''https://ex.test/'', Visited ''https://ex.test/a'', Visited ''https://ex.test/b'',
        Visited ''https://ex.test/c'']"
proof -
  have p: "phases 0 demo_trace = [0, 0, 0, 0, 1, 1, 1, 1, 1, 1, 2, 2, 2, 2]"
    by (simp add: demo_trace_def)
  have f: "filter (\<lambda>ev. case ev of Visited u \<Rightarrow> True | _ \<Rightarrow> False) demo_trace
     = [Visited ''https://ex.test/'', Visited ''https://ex.test/a'', Visited ''https://ex.test/b'',
        Visited ''https://ex.test/c'']"
    by (simp add: demo_trace_def)
  from crawl_breadth_first[OF demo_run] demo_run p f show ?thesis by blast
qed







lemma crawl_url_failed:
  assumes cu: "crawl_url env c url depth log = (data, c', hh @ [Get url])"
    and nv: "url \<notin> visited_urls c" and d: "depth \<le> crawl_depth c"
    and ff: "fetch_failed env c hh url"
  shows "data = Map.empty"
proof -
  from crawl_url_effect[OF cu nv d] obtain rr where
    rr: "rr = [] \<or> rr = [RobotsRead (origin_of env url)]"
    and cases: "(hh @ [Get url] = log @ Visited url # rr \<and> data = Map.empty) \<or>
             (hh @ [Get url] = log @ Visited url # rr @ [Get url] \<and>
              (if fetch_failed env c (log @ Visited url # rr) url then data = Map.empty
               else \<exists>rsp pd. http_get env (log @ Visited url # rr) url = Inr rsp \<and>
                      status_code rsp = 200 \<and>
                      extract_content env c url (resp_text rsp) = Inr pd \<and>
                      data = [url \<mapsto> pd]))"
    by blast
  from cases show ?thesis
  proof (elim disjE conjE)
    assume "data = Map.empty" then show ?thesis .
  next
    assume e: "hh @ [Get url] = log @ Visited url # rr @ [Get url]"
      and i: "if fetch_failed env c (log @ Visited url # rr) url then data = Map.empty
               else \<exists>rsp pd. http_get env (log @ Visited url # rr) url = Inr rsp \<and>
                      status_code rsp = 200 \<and>
                      extract_content env c url (resp_text rsp) = Inr pd \<and>
                      data = [url \<mapsto> pd]"
    from e have "hh @ [Get url] = (log @ Visited url # rr) @ [Get url]" by simp
    then have "hh = log @ Visited url # rr" by (simp only: append1_eq_conv)
    with ff i show ?thesis by simp
  qed
qed

text \<open>
  C8 (failure of one URL). When the request for a URL fails (\<open>requests.get\<close> raises, the
  status is not 200, or the extraction raises), the URL is not a key of the result, it
  is in the visited set, and the trace holds no other request for it. The iteration
  that met the failure leaves \<open>results\<close> as it was and the loop goes on with the rest of
  the queue. \<open>crawl\<close> is a total function: the loop ends and a map, possibly empty, is
  returned.
\<close>

theorem crawl_failed_fetch:
  assumes "crawl env c seed = (R, c', log)" and "log = pre @ Get u # post"
    and "fetch_failed env c pre u"
  shows "R u = None \<and> u \<in> visited_urls c' \<and> Get u \<notin> set pre \<and> Get u \<notin> set post \<and>
         (\<forall>c0 R0 d q h data c1 hh.
            u \<notin> visited_urls c0 \<longrightarrow> d \<le> crawl_depth c0 \<longrightarrow>
            crawl_url env c0 u d (h @ [Dequeued u d]) = (data, c1, hh @ [Get u]) \<longrightarrow>
            fetch_failed env c0 hh u \<longrightarrow>
            crawl_loop env (c0, R0, (u, d) # q, h) = crawl_loop env (c1, R0, q, hh @ [Get u]))"
proof -
  from crawl_trace_inv[where env=env and c=c and seed=seed] assms(1)
  have inv: "trace_inv env (visited_urls c') log" by simp
  then have g: "count_list log (Get u) \<le> 1"
    and b: "Visited u \<in> set pre"
    and m: "visited_urls c' = {u. Visited u \<in> set log}"
    using assms(2) unfolding trace_inv_def by blast+
  from crawl_results_inv[where env=env and c=c and seed=seed] assms(1)
  have ri: "results_inv env c R log" by simp
  have none: "R u = None"
  proof (rule ccontr)
    assume "R u \<noteq> None"
    then obtain pd where "R u = Some pd" by auto
    with ri obtain pre' post' rsp where l: "log = pre' @ Get u # post'"
      and h: "http_get env pre' u = Inr rsp" "status_code rsp = 200"
             "extract_content env c u (resp_text rsp) = Inr pd"
      unfolding results_inv_def by blast
    from unique_split[OF g assms(2) l] have "pre = pre'" .
    with h assms(3) show False by (simp add: fetch_failed_def)
  qed
  have vis: "u \<in> visited_urls c'" using m b assms(2) by simp
  have step: "crawl_loop env (c0, R0, (u, d) # q, h) = crawl_loop env (c1, R0, q, hh @ [Get u])"
    if nv: "u \<notin> visited_urls c0" and d: "d \<le> crawl_depth c0"
      and cu: "crawl_url env c0 u d (h @ [Dequeued u d]) = (data, c1, hh @ [Get u])"
      and ff: "fetch_failed env c0 hh u"
    for c0 R0 d q h data c1 hh
  proof -
    from crawl_url_failed[OF cu nv d ff] have e: "data = Map.empty" .
    have "loop_body env u d (c0, R0, q, h @ [Dequeued u d]) = (c1, R0, q, hh @ [Get u])"
      using nv d cu e by (simp add: loop_body_def)
    then show ?thesis by simp
  qed
  from none vis count_le_one_split[OF g assms(2)] step show ?thesis by blast
qed

theorem crawl_failed_fetch_witness:
  "crawl demo_env demo_crawler ''https://ex.test/'' = (demo_results, demo_final, demo_trace) \<and>
   demo_trace = take 9 demo_trace @ Get ''https://ex.test/b'' # drop 10 demo_trace \<and>
   fetch_failed demo_env demo_crawler (take 9 demo_trace) ''https://ex.test/b'' \<and>
   demo_results ''https://ex.test/b'' = None \<and>
   ''https://ex.test/b'' \<in> visited_urls demo_final \<and>
   demo_results ''https://ex.test/c'' = Some (demo_page [''https://ex.test/''])"
proof -
  have d: "demo_trace = take 9 demo_trace @ Get ''https://ex.test/b'' # drop 10 demo_trace"
    by (simp add: demo_trace_def)
  have f: "fetch_failed demo_env demo_crawler (take 9 demo_trace) ''https://ex.test/b''"
    by (simp add: fetch_failed_def demo_env_def py_env_sel demo_site_def)
  have r: "demo_results ''https://ex.test/c'' = Some (demo_page [''https://ex.test/''])"
    by (simp add: demo_results_def)
  from crawl_failed_fetch[OF demo_run d f] demo_run d f r show ?thesis by blast
qed


section \<open>Links to fragments\<close>

lemma before_first_subset: "set (before_first ch s) \<subseteq> set s"
  by (auto simp: before_first_def dest: set_takeWhileD)

lemma in_before_first: "x \<in> set (before_first ch s) \<Longrightarrow> x \<in> set s \<and> x \<noteq> ch"
  by (auto simp: before_first_def dest: set_takeWhileD)

lemma urlsplit_path_no_hash: "CHR ''#'' \<notin> set (path (py_urlsplit u sch))"
  by (auto simp: py_urlsplit_def Let_def dest!: in_before_first)

lemma splitparams_subset: "set (fst (splitparams p)) \<subseteq> set p"
proof -
  have "set (take n p) \<subseteq> set p" for n by (rule set_take_subset)
  moreover have "set (before_first CHR '';'' (rev (before_first CHR ''/'' (rev p)))) \<subseteq> set p"
    using before_first_subset[of "CHR '';''" "rev (before_first CHR ''/'' (rev p))"]
      before_first_subset[of "CHR ''/''" "rev p"] by auto
  ultimately show ?thesis
    using before_first_subset[of "CHR '';''" p]
    by (auto simp: splitparams_def Let_def)
qed

lemma link_ok_py:
  "link_ok (py_env rd gt) bd =
     (\<lambda>l. (netloc (py_urlparse l []) = bd \<or> netloc (py_urlparse l []) = []) \<and>
          scheme (py_urlparse l []) \<in> set [''http'', ''https''])"
  if "\<And>u. CHR ''#'' \<notin> set (path (py_urlparse u []))"
  by (rule ext) (simp add: link_ok_def py_env_sel Let_def that)

lemma urlparse_path_no_hash: "CHR ''#'' \<notin> set (path (py_urlparse u sch))"
  using urlsplit_path_no_hash[of u sch] splitparams_subset[of "path (py_urlsplit u sch)"]
  by (auto simp: py_urlparse_def Let_def)

text \<open>
  C10 (anchors are not excluded). \<open>urlparse\<close> splits the fragment off before it takes
  the path, so the path of a parsed URL never holds \<open>#\<close> and the test of line 93 is
  true for every link: the links of a page are those that pass the host and scheme
  tests alone. A page of \<open>https://ex.test/\<close> whose only anchor is \<open>page#section\<close> gets
  the link \<open>https://ex.test/page#section\<close>, fragment included.
\<close>

theorem fragment_test_excludes_nothing:
  "(\<forall>u sch. CHR ''#'' \<notin> set (path (py_urlparse u sch))) \<and>
   (\<forall>rd gt url soup. internal_links (py_env rd gt) url soup =
      filter (\<lambda>l. (netloc (py_urlparse l []) = netloc (py_urlparse url []) \<or>
                    netloc (py_urlparse l []) = []) \<and>
                   scheme (py_urlparse l []) \<in> set [''http'', ''https''])
        (map (py_urljoin url) (attr_values ''a'' ''href'' soup))) \<and>
   (\<forall>rd gt. \<exists>pd. extract_content (py_env rd gt) demo_crawler ''https://ex.test/'' demo_fragment_doc
                  = Inr pd \<and> links pd = [''https://ex.test/page#section''])"
proof (intro conjI allI)
  show "CHR ''#'' \<notin> set (path (py_urlparse u sch))" for u sch
    by (rule urlparse_path_no_hash)
  show "internal_links (py_env rd gt) url soup =
      filter (\<lambda>l. (netloc (py_urlparse l []) = netloc (py_urlparse url []) \<or>
                    netloc (py_urlparse l []) = []) \<and>
                   scheme (py_urlparse l []) \<in> set [''http'', ''https''])
        (map (py_urljoin url) (attr_values ''a'' ''href'' soup))" for rd gt url soup
    by (simp add: internal_links_def link_ok_py[OF urlparse_path_no_hash] py_env_sel Let_def)
  show "\<exists>pd. extract_content (py_env rd gt) demo_crawler ''https://ex.test/'' demo_fragment_doc
                  = Inr pd \<and> links pd = [''https://ex.test/page#section'']" for rd gt
    by (simp add: extract_defs demo_fragment_doc_def demo_config py_env_sel parse_demo join_demo)
qed

theorem fragment_test_excludes_nothing_witness:
  "CHR ''#'' \<notin> set (path (py_urlparse ''https://ex.test/page#section'' [])) \<and>
   CHR ''#'' \<in> set ''https://ex.test/page#section'' \<and>
   internal_links (py_env demo_robots_open demo_site) ''https://ex.test/'' demo_fragment_doc
     = [''https://ex.test/page#section'']"
proof -
  have h: "CHR ''#'' \<in> set ''https://ex.test/page#section''" by simp
  have i: "internal_links (py_env demo_robots_open demo_site) ''https://ex.test/'' demo_fragment_doc
     = [''https://ex.test/page#section'']"
    by (simp add: extract_defs demo_fragment_doc_def py_env_sel parse_demo join_demo)
  from fragment_test_excludes_nothing h i show ?thesis by blast
qed


end
